theory Spec2Isabelle
  imports Main "HOL-Library.Word"
begin

unbundle bit_operations_syntax

section \<open>Bytes, hexadecimal strings and bit arrays\<close>

text \<open>
  The applet (\<^verbatim>\<open>applet/program_ecp5/__init__.py\<close>) moves SPI-NOR command bytes through a
  JTAG data register. Python \<^verbatim>\<open>bytes\<close> are lists of 8-bit words; a
  \<^verbatim>\<open>bitarray(endian="little")\<close> is a list of booleans in index order.
\<close>

type_synonym byte = "8 word"
type_synonym bits = "bool list"

text \<open>\<^verbatim>\<open>'{:02x}'.format(x)\<close> for a byte \<open>x\<close>: two lower-case hexadecimal digits.\<close>

definition hexdigit :: "nat \<Rightarrow> char" where
  "hexdigit n = (if n < 10 then char_of (48 + n) else char_of (87 + n))"

definition format_02x :: "byte \<Rightarrow> string" where
  "format_02x x = [hexdigit (unat x div 16), hexdigit (unat x mod 16)]"

text \<open>\<^verbatim>\<open>''.join('{:02x}'.format(x) for x in xs)\<close>, as \<^verbatim>\<open>_command\<close> builds \<^verbatim>\<open>xmit\<close>.\<close>

definition join_02x :: "byte list \<Rightarrow> string" where
  "join_02x xs = concat (map format_02x xs)"

text \<open>
  \<^verbatim>\<open>bytes.fromhex\<close>: ASCII whitespace is skipped between bytes, each byte is two
  hexadecimal digits of either case, anything else raises \<^verbatim>\<open>ValueError\<close> (\<open>None\<close>).
\<close>

definition hexval :: "char \<Rightarrow> nat option" where
  "hexval c =
     (let k = (of_char c :: nat) in
      if 48 \<le> k \<and> k \<le> 57 then Some (k - 48)
      else if 97 \<le> k \<and> k \<le> 102 then Some (k - 87)
      else if 65 \<le> k \<and> k \<le> 70 then Some (k - 55)
      else None)"

definition is_space :: "char \<Rightarrow> bool" where
  "is_space c = (let k = (of_char c :: nat) in k = 32 \<or> (9 \<le> k \<and> k \<le> 13))"

fun fromhex :: "string \<Rightarrow> byte list option" where
  "fromhex [] = Some []"
| "fromhex [c] = (if is_space c then Some [] else None)"
| "fromhex (c # d # cs) =
     (if is_space c then fromhex (d # cs)
      else case (hexval c, hexval d) of
        (Some h, Some l) \<Rightarrow> map_option ((#) (of_nat (h * 16 + l))) (fromhex cs)
      | _ \<Rightarrow> None)"

text \<open>\<^verbatim>\<open>s.rjust(width, "0")\<close>.\<close>

definition rjust0 :: "string \<Rightarrow> nat \<Rightarrow> string" where
  "rjust0 s width = replicate (width - length s) CHR ''0'' @ s"

text \<open>
  The \<^verbatim>\<open>bitarray\<close> methods the applet calls, on a little-endian bit array:
  \<^verbatim>\<open>frombytes\<close> appends each byte least significant bit first, \<^verbatim>\<open>tobytes\<close> reads
  groups of eight bits the same way (a last partial group is padded with zero bits),
  \<^verbatim>\<open>reverse\<close> reverses the whole array, and \<^verbatim>\<open>bytereverse\<close> reverses the bit order
  inside every byte of the buffer (the unused bits of a last partial byte count as zero).
\<close>

definition bits_of_byte :: "byte \<Rightarrow> bits" where
  "bits_of_byte b = map (bit b) [0..<8]"

definition byte_of_bits :: "bits \<Rightarrow> byte" where
  "byte_of_bits bs = horner_sum of_bool 2 (take 8 bs)"

definition frombytes :: "byte list \<Rightarrow> bits" where
  "frombytes bs = concat (map bits_of_byte bs)"

fun tobytes :: "bits \<Rightarrow> byte list" where
  "tobytes bs = (if bs = [] then [] else byte_of_bits (take 8 bs) # tobytes (drop 8 bs))"

definition reverse :: "bits \<Rightarrow> bits" where
  "reverse bs = rev bs"

definition bytereverse1 :: "bits \<Rightarrow> bits" where
  "bytereverse1 chunk = take (length chunk) (rev (chunk @ replicate (8 - length chunk) False))"

fun bytereverse :: "bits \<Rightarrow> bits" where
  "bytereverse bs = (if bs = [] then [] else bytereverse1 (take 8 bs) @ bytereverse (drop 8 bs))"

declare tobytes.simps [simp del] bytereverse.simps [simp del]

subsection \<open>The two codecs\<close>

text \<open>
  \<^verbatim>\<open>_hex_to_bitarray\<close> (lines 24-31) and \<^verbatim>\<open>_bitarray\<close> (lines 33-41). Both pad the nibble
  string on the left to an even length and decode it with \<^verbatim>\<open>bytes.fromhex\<close>; the first
  then calls \<^verbatim>\<open>reverse\<close> and \<^verbatim>\<open>bytereverse\<close>, the second only \<^verbatim>\<open>bytereverse\<close> (its
  \<^verbatim>\<open>reverse\<close> is commented out in the source).
\<close>

definition hex_to_bitarray :: "string \<Rightarrow> bits option" where
  "hex_to_bitarray input_nibbles =
     (let byte_len = (length input_nibbles + 1) div 2 in
      case fromhex (rjust0 input_nibbles (byte_len * 2)) of
        None \<Rightarrow> None
      | Some input_bytes \<Rightarrow> Some (bytereverse (reverse (frombytes input_bytes))))"

definition bitarray :: "string \<Rightarrow> bits option" where
  "bitarray input_nibbles =
     (let byte_len = (length input_nibbles + 1) div 2 in
      case fromhex (rjust0 input_nibbles (byte_len * 2)) of
        None \<Rightarrow> None
      | Some input_bytes \<Rightarrow> Some (bytereverse (frombytes input_bytes)))"

text \<open>
  The decoding step at the end of \<^verbatim>\<open>_command\<close> (lines 70-73):
  \<^verbatim>\<open>value.reverse(); value.bytereverse(); return value.tobytes()\<close>.
\<close>

definition decode_value :: "bits \<Rightarrow> byte list" where
  "decode_value v = tobytes (bytereverse (reverse v))"

text \<open>A byte with its bit order reversed.\<close>

definition bitrev :: "byte \<Rightarrow> byte" where
  "bitrev b = byte_of_bits (rev (bits_of_byte b))"


section \<open>Python helpers\<close>

text \<open>
  Slices. An index below zero counts from the end, and every index is clipped to the
  sequence: \<^verbatim>\<open>xs[:k]\<close> and the slice assignment \<^verbatim>\<open>xs[i:j] = ys\<close>.
\<close>

definition slice_index :: "nat \<Rightarrow> int \<Rightarrow> nat" where
  "slice_index n i = (if i < 0 then nat (int n + i) else min (nat i) n)"

definition slice_to :: "'a list \<Rightarrow> int \<Rightarrow> 'a list" where
  "slice_to xs k = take (slice_index (length xs) k) xs"

definition set_slice :: "'a list \<Rightarrow> int \<Rightarrow> int \<Rightarrow> 'a list \<Rightarrow> 'a list" where
  "set_slice xs i j ys =
     (let lo = slice_index (length xs) i;
          hi = max lo (slice_index (length xs) j)
      in take lo xs @ ys @ drop hi xs)"

text \<open>
  \<^verbatim>\<open>re.match(rb"^\xff*$", sector_data)\<close>: the pattern is anchored at the start, takes
  \<open>0xFF\<close> bytes, and \<^verbatim>\<open>$\<close> matches at the end of the data or just before a line feed
  that is its last byte.
\<close>

definition match_ff :: "byte list \<Rightarrow> bool" where
  "match_ff sector_data =
     (let rest = dropWhile (\<lambda>b. b = 0xff) sector_data in rest = [] \<or> rest = [0x0a])"

section \<open>Errors, the trace and the JTAG transport\<close>

text \<open>
  The exceptions the modelled code can raise. \<open>ProgramECP5Error command status\<close> is
  \<^verbatim>\<open>ProgramECP5Error("{} command failed (status {:08b})".format(command, status))\<close>.
\<close>

datatype error =
    ProgramECP5Error string int
  | GlasgowAppletError string
  | ValueError
  | ZeroDivisionError
  | UnboundLocalError
  | AttributeError

type_synonym 'a res = "error + 'a"

text \<open>
  The status text of a progress report, by its format string:
  \<^verbatim>\<open>"reading address {:#08x}"\<close>, \<^verbatim>\<open>"programming page {:#08x}"\<close>,
  \<^verbatim>\<open>"erasing sector {:#08x}"\<close>, each with the address it formats.
\<close>

datatype status_text = Reading_address int | Programming_page int | Erasing_sector int

text \<open>
  The transport (\<^verbatim>\<open>self.lower\<close>) is not part of the applet. It is a parameter with two
  parts. \<open>jtag\<close> is a function from a call and the transport's state to the bits it returns
  (used for \<^verbatim>\<open>shift_tdio\<close> only) and its next state; the transport is taken not to raise.
  \<open>has_hex\<close> says whether the object \<^verbatim>\<open>shift_tdio\<close> returns has a method \<^verbatim>\<open>hex\<close>:
  \<^verbatim>\<open>_command\<close> calls \<^verbatim>\<open>value.hex()\<close> on it (line 69) before it calls the \<^verbatim>\<open>bitarray\<close>
  methods \<^verbatim>\<open>reverse\<close>, \<^verbatim>\<open>bytereverse\<close> and \<^verbatim>\<open>tobytes\<close> (lines 70-73). The \<^verbatim>\<open>bitarray\<close>
  of the library, the class the module imports and \<^verbatim>\<open>_bitarray\<close> builds, has no method
  \<^verbatim>\<open>hex\<close>; on such an object the call raises \<^verbatim>\<open>AttributeError\<close>.
\<close>

datatype jtag_call = Enter_shift_dr | Shift_tdio bits | Enter_pause_dr

record 'd lower =
  jtag :: "jtag_call \<Rightarrow> 'd \<Rightarrow> bits \<times> 'd"
  has_hex :: bool

text \<open>
  What a run does, in order: the calls to the transport, the messages given to
  \<^verbatim>\<open>self._log\<close> and to the applet's logger (one constructor per format string), and the
  calls to the caller's progress callback.
\<close>

datatype event =
    Jtag jtag_call
  | Log_cmd byte "byte list" nat nat
  | Log_result bits
  | Log_read int int
  | Log_read_status int
  | Log_write_enable
  | Log_write_status int
  | Log_sector_erase int
  | Log_page_program int "byte list"
  | Log_verify_pass
  | Log_first_differing int byte byte
  | Log_protect_bits int
  | Callback nat nat "status_text option"

record 'd st =
  dev :: 'd
  trace :: "event list"

definition emit :: "event list \<Rightarrow> 'd st \<Rightarrow> 'd st" where
  "emit es s = s\<lparr>trace := trace s @ es\<rparr>"

definition call :: "'d lower \<Rightarrow> jtag_call \<Rightarrow> 'd st \<Rightarrow> bits \<times> 'd st" where
  "call lower c s =
     (let (r, d) = jtag lower c (dev s) in (r, \<lparr>dev = d, trace = trace s @ [Jtag c]\<rparr>))"

text \<open>
  A progress callback is given \<^verbatim>\<open>done\<close>, \<^verbatim>\<open>total\<close> and the status text (or \<open>None\<close>); its
  result is ignored and it does not touch the transport. The model records the reports
  that reach the caller: a callback is a function to the list of reports it passes on.
  \<open>observer\<close> is a caller's callback, seen in the trace as it is called; \<open>no_callback\<close> is
  the default \<^verbatim>\<open>lambda done, total, status: None\<close>.
\<close>

type_synonym report = "nat \<times> nat \<times> status_text option"

type_synonym callback = "nat \<Rightarrow> nat \<Rightarrow> status_text option \<Rightarrow> report list"

definition observer :: callback where
  "observer n_done n_total status = [(n_done, n_total, status)]"

definition no_callback :: callback where
  "no_callback n_done n_total status = []"

definition notify :: "callback \<Rightarrow> nat \<Rightarrow> nat \<Rightarrow> status_text option \<Rightarrow> 'd st \<Rightarrow> 'd st" where
  "notify callback n_done n_total status s =
     emit (map (\<lambda>(d, t, x). Callback d t x) (callback n_done n_total status)) s"

text \<open>
  An operation with a loop that may run forever returns \<open>None\<close> when it does; otherwise
  the exception or the value, with the state reached. \<open>bind_res\<close> runs the next step
  after a normal return and stops at an exception.
\<close>

definition bind_res ::
  "('a res \<times> 's) option \<Rightarrow> ('a \<Rightarrow> 's \<Rightarrow> ('b res \<times> 's) option) \<Rightarrow> ('b res \<times> 's) option" where
  "bind_res m f =
     (case m of
        None \<Rightarrow> None
      | Some (Inl e, s) \<Rightarrow> Some (Inl e, s)
      | Some (Inr x, s) \<Rightarrow> f x s)"

lemma bind_res_mono [partial_function_mono]:
  assumes mf: "mono_option B" and mg: "\<And>y s. mono_option (\<lambda>f. C y s f)"
  shows "mono_option (\<lambda>f. bind_res (B f) (\<lambda>y s. C y s f))"
proof -
  have eq: "\<And>m g. bind_res m g =
      Option.bind m (\<lambda>p. case p of (Inl e, s) \<Rightarrow> Some (Inl e, s) | (Inr x, s) \<Rightarrow> g x s)"
    by (auto simp: bind_res_def split: option.splits sum.splits)
  have "mono_option (\<lambda>f. case p of (Inl e, s) \<Rightarrow> Some (Inl e, s) | (Inr x, s) \<Rightarrow> C x s f)" for p
  proof (cases p)
    case (Pair r s)
    then show ?thesis
      by (cases r) (simp_all add: option.const_mono mg)
  qed
  then show ?thesis
    unfolding eq by (rule bind_mono [OF mf])
qed

section \<open>SPI transceiver\<close>

text \<open>\<^verbatim>\<open>_sdr_array\<close> (lines 86-90): one data-register shift cycle.\<close>

definition sdr_array :: "'d lower \<Rightarrow> bits \<Rightarrow> 'd st \<Rightarrow> bits \<times> 'd st" where
  "sdr_array lower tdi s =
     (let (u, s) = call lower Enter_shift_dr s;
          (tdo_bits, s) = call lower (Shift_tdio tdi) s;
          (u, s) = call lower Enter_pause_dr s
      in (tdo_bits, s))"

text \<open>
  \<^verbatim>\<open>_command\<close> (lines 57-73). Every caller passes an opcode literal for \<^verbatim>\<open>cmd\<close>, a byte;
  \<^verbatim>\<open>arg\<close> is the result of \<^verbatim>\<open>bytes(arg)\<close>. \<^verbatim>\<open>bytes.fromhex\<close> inside \<^verbatim>\<open>_bitarray\<close> can raise
  \<^verbatim>\<open>ValueError\<close>. After the second shift, \<^verbatim>\<open>value.hex()\<close> is evaluated as an argument
  of \<^verbatim>\<open>self._log\<close> (line 69): when the object has no such method the call raises
  \<^verbatim>\<open>AttributeError\<close> there, before the message is logged and before the decoding.
\<close>

definition command ::
  "'d lower \<Rightarrow> byte \<Rightarrow> byte list \<Rightarrow> nat \<Rightarrow> nat \<Rightarrow> 'd st \<Rightarrow> byte list res \<times> 'd st" where
  "command lower cmd arg dummy ret s =
     (let s = emit [Log_cmd cmd arg dummy ret] s;
          xmit = join_02x ([cmd] @ arg @ replicate dummy 0)
      in case bitarray xmit of
        None \<Rightarrow> (Inl ValueError, s)
      | Some tdi \<Rightarrow>
          (let (value, s) = sdr_array lower tdi s;
               xmit = join_02x (replicate ret 0)
           in case bitarray xmit of
             None \<Rightarrow> (Inl ValueError, s)
           | Some tdi \<Rightarrow>
               (let (value, s) = sdr_array lower tdi s
                in if has_hex lower then
                     (let s = emit [Log_result value] s
                      in (Inr (decode_value value), s))
                   else (Inl AttributeError, s))))"

section \<open>Flash command layer\<close>

definition BIT_WIP :: int where "BIT_WIP = 0b00000001"
definition BIT_WEL :: int where "BIT_WEL = 0b00000010"
definition MSK_PROT :: int where "MSK_PROT = 0b00111100"

text \<open>\<^verbatim>\<open>_format_addr\<close> (lines 119-120).\<close>

definition format_addr :: "int \<Rightarrow> byte list" where
  "format_addr addr =
     [word_of_int (drop_bit 16 addr AND 0xff),
      word_of_int (drop_bit 8 addr AND 0xff),
      word_of_int (addr AND 0xff)]"

text \<open>
  \<^verbatim>\<open>read_status\<close> (lines 149-152). \<^verbatim>\<open>status, = ...\<close> raises \<^verbatim>\<open>ValueError\<close> unless the
  response is one byte; the status is a Python integer.
\<close>

definition read_status :: "'d lower \<Rightarrow> 'd st \<Rightarrow> int res \<times> 'd st" where
  "read_status lower s =
     (case command lower 0x05 [] 0 1 s of
        (Inl e, s) \<Rightarrow> (Inl e, s)
      | (Inr [status], s) \<Rightarrow> (Inr (uint status), emit [Log_read_status (uint status)] s)
      | (Inr other, s) \<Rightarrow> (Inl ValueError, s))"

text \<open>\<^verbatim>\<open>write_enable\<close> (lines 154-156).\<close>

definition write_enable :: "'d lower \<Rightarrow> 'd st \<Rightarrow> unit res \<times> 'd st" where
  "write_enable lower s =
     (let s = emit [Log_write_enable] s
      in case command lower 0x06 [] 0 0 s of
        (Inl e, s) \<Rightarrow> (Inl e, s)
      | (Inr v, s) \<Rightarrow> (Inr (), s))"

text \<open>\<^verbatim>\<open>write_in_progress\<close> (lines 162-171).\<close>

definition write_in_progress :: "'d lower \<Rightarrow> string \<Rightarrow> 'd st \<Rightarrow> bool res \<times> 'd st" where
  "write_in_progress lower command_name s =
     (case read_status lower s of
        (Inl e, s) \<Rightarrow> (Inl e, s)
      | (Inr status, s) \<Rightarrow>
          if status AND BIT_WEL \<noteq> 0 \<and> \<not> status AND BIT_WIP \<noteq> 0 then
            (case read_status lower s of
               (Inl e, s) \<Rightarrow> (Inl e, s)
             | (Inr status, s) \<Rightarrow>
                 if status AND BIT_WEL \<noteq> 0 \<and> \<not> status AND BIT_WIP \<noteq> 0
                 then (Inl (ProgramECP5Error command_name status), s)
                 else (Inr (status AND BIT_WIP \<noteq> 0), s))
          else (Inr (status AND BIT_WIP \<noteq> 0), s))"

text \<open>
  \<^verbatim>\<open>while await self.write_in_progress(command=...): pass\<close>, the loop that ends
  \<^verbatim>\<open>write_status\<close>, \<^verbatim>\<open>sector_erase\<close> and \<^verbatim>\<open>page_program\<close>. It has no bound.
\<close>

partial_function (option) wait_write_in_progress ::
  "'d lower \<Rightarrow> string \<Rightarrow> 'd st \<Rightarrow> (unit res \<times> 'd st) option" where
  "wait_write_in_progress lower command_name s =
     (case write_in_progress lower command_name s of
        (Inl e, s) \<Rightarrow> Some (Inl e, s)
      | (Inr wip, s) \<Rightarrow>
          if wip then wait_write_in_progress lower command_name s else Some (Inr (), s))"

declare wait_write_in_progress.simps [code]

text \<open>
  \<^verbatim>\<open>write_status\<close> (lines 173-176). \<^verbatim>\<open>bytes([status])\<close> in \<^verbatim>\<open>_command\<close> raises
  \<^verbatim>\<open>ValueError\<close> unless \<open>0 \<le> status < 256\<close>.
\<close>

definition write_status :: "'d lower \<Rightarrow> int \<Rightarrow> 'd st \<Rightarrow> (unit res \<times> 'd st) option" where
  "write_status lower status s =
     (let s = emit [Log_write_status status] s
      in if 0 \<le> status \<and> status < 256 then
           bind_res (Some (command lower 0x01 [word_of_int status] 0 0 s))
             (\<lambda>v s. wait_write_in_progress lower ''WRITE STATUS'' s)
         else Some (Inl ValueError, s))"

text \<open>\<^verbatim>\<open>sector_erase\<close> (lines 178-181).\<close>

definition sector_erase :: "'d lower \<Rightarrow> int \<Rightarrow> 'd st \<Rightarrow> (unit res \<times> 'd st) option" where
  "sector_erase lower address s =
     (let s = emit [Log_sector_erase address] s
      in bind_res (Some (command lower 0x20 (format_addr address) 0 0 s))
           (\<lambda>v s. wait_write_in_progress lower ''SECTOR ERASE'' s))"

text \<open>\<^verbatim>\<open>page_program\<close> (lines 193-197).\<close>

definition page_program ::
  "'d lower \<Rightarrow> int \<Rightarrow> byte list \<Rightarrow> 'd st \<Rightarrow> (unit res \<times> 'd st) option" where
  "page_program lower address data s =
     (let s = emit [Log_page_program address data] s
      in bind_res (Some (command lower 0x02 (format_addr address @ data) 0 0 s))
           (\<lambda>v s. wait_write_in_progress lower ''PAGE PROGRAM'' s))"

text \<open>
  \<^verbatim>\<open>_read_command\<close> (lines 122-135) and \<^verbatim>\<open>read\<close> (lines 137-141). The loop runs while
  \<^verbatim>\<open>length > len(data)\<close>; \<^verbatim>\<open>range(ret)\<close> of a negative \<^verbatim>\<open>ret\<close> is empty.
\<close>

partial_function (option) read_command_loop ::
  "'d lower \<Rightarrow> int \<Rightarrow> int \<Rightarrow> int \<Rightarrow> byte \<Rightarrow> nat \<Rightarrow> callback \<Rightarrow> byte list \<Rightarrow> 'd st
     \<Rightarrow> (byte list res \<times> 'd st) option" where
  "read_command_loop lower address len chunk_size cmd dummy callback data s =
     (if len > int (length data) then
        let s = notify callback (length data) (nat len) (Some (Reading_address address)) s;
            ret = nat (min chunk_size (len - int (length data)))
        in bind_res (Some (command lower cmd (format_addr address) dummy ret s))
             (\<lambda>chunk s. read_command_loop lower (address + int (length chunk)) len chunk_size
                 cmd dummy callback (data @ chunk) s)
      else Some (Inr data, s))"

declare read_command_loop.simps [code]

definition read_command ::
  "'d lower \<Rightarrow> int \<Rightarrow> int \<Rightarrow> int option \<Rightarrow> byte \<Rightarrow> nat \<Rightarrow> callback \<Rightarrow> 'd st
     \<Rightarrow> (byte list res \<times> 'd st) option" where
  "read_command lower address len chunk_size cmd dummy callback s =
     (let chunk_size = (case chunk_size of None \<Rightarrow> 0xff | Some c \<Rightarrow> c)
      in read_command_loop lower address len chunk_size cmd dummy callback [] s)"

definition read ::
  "'d lower \<Rightarrow> int \<Rightarrow> int \<Rightarrow> int option \<Rightarrow> callback \<Rightarrow> 'd st \<Rightarrow> (byte list res \<times> 'd st) option" where
  "read lower address len chunk_size callback s =
     (let s = emit [Log_read address len] s
      in read_command lower address len chunk_size 0x03 0 callback s)"

section \<open>Bulk operation layer\<close>

text \<open>
  \<^verbatim>\<open>program\<close> (lines 199-214). \<open>program_loop\<close> is its \<^verbatim>\<open>while len(data) > 0\<close> loop with
  the loop variables \<^verbatim>\<open>address\<close>, \<^verbatim>\<open>data\<close> and \<^verbatim>\<open>done\<close> as arguments, and the final
  callback; \<^verbatim>\<open>address % page_size\<close> raises \<^verbatim>\<open>ZeroDivisionError\<close> when the page size is 0.
\<close>

partial_function (option) program_loop ::
  "'d lower \<Rightarrow> callback \<Rightarrow> int \<Rightarrow> byte list \<Rightarrow> int \<Rightarrow> nat \<Rightarrow> nat \<Rightarrow> 'd st
     \<Rightarrow> (unit res \<times> 'd st) option" where
  "program_loop lower callback address data page_size n_done n_total s =
     (if length data > 0 then
        if page_size = 0 then Some (Inl ZeroDivisionError, s)
        else
          let chunk = slice_to data (page_size - address mod page_size);
              data' = drop (length chunk) data;
              s = notify callback n_done n_total (Some (Programming_page address)) s
          in bind_res (Some (write_enable lower s)) (\<lambda>u s.
             bind_res (page_program lower address chunk s) (\<lambda>u s.
               program_loop lower callback (address + int (length chunk)) data' page_size
                 (n_done + length chunk) n_total s))
      else Some (Inr (), notify callback n_done n_total None s))"

declare program_loop.simps [code]

definition program ::
  "'d lower \<Rightarrow> callback \<Rightarrow> int \<Rightarrow> byte list \<Rightarrow> int \<Rightarrow> 'd st \<Rightarrow> (unit res \<times> 'd st) option" where
  "program lower callback address data page_size s =
     program_loop lower callback address data page_size 0 (length data) s"

text \<open>
  \<^verbatim>\<open>erase_program\<close> (lines 216-243), in the same way. The nested callback is
  \<^verbatim>\<open>lambda page_done, page_total, status: callback(done + page_done, total, status)\<close>.
\<close>

partial_function (option) erase_program_loop ::
  "'d lower \<Rightarrow> callback \<Rightarrow> int \<Rightarrow> byte list \<Rightarrow> int \<Rightarrow> int \<Rightarrow> nat \<Rightarrow> nat \<Rightarrow> 'd st
     \<Rightarrow> (unit res \<times> 'd st) option" where
  "erase_program_loop lower callback address data sector_size page_size n_done n_total s =
     (if length data > 0 then
        if sector_size = 0 then Some (Inl ZeroDivisionError, s)
        else
          let chunk = slice_to data (sector_size - address mod sector_size);
              data' = drop (length chunk) data;
              sector_start = address AND NOT (sector_size - 1)
          in bind_res
               (if address mod sector_size = 0 \<and> int (length chunk) = sector_size
                then Some (Inr chunk, s)
                else bind_res (read lower sector_start sector_size None no_callback s)
                  (\<lambda>sector_data s.
                     Some (Inr (set_slice sector_data (address mod sector_size)
                                  (address mod sector_size + int (length chunk)) chunk), s)))
               (\<lambda>sector_data s.
             let s = notify callback n_done n_total (Some (Erasing_sector sector_start)) s
             in bind_res (Some (write_enable lower s)) (\<lambda>u s.
                bind_res (sector_erase lower sector_start s) (\<lambda>u s.
                bind_res
                  (if \<not> match_ff sector_data
                   then program lower
                          (\<lambda>page_done page_total status.
                             callback (n_done + page_done) n_total status)
                          sector_start sector_data page_size s
                   else Some (Inr (), s))
                  (\<lambda>u s.
                  erase_program_loop lower callback (address + int (length chunk)) data'
                    sector_size page_size (n_done + length chunk) n_total s))))
      else Some (Inr (), notify callback n_done n_total None s))"

declare erase_program_loop.simps [code]

definition erase_program ::
  "'d lower \<Rightarrow> callback \<Rightarrow> int \<Rightarrow> byte list \<Rightarrow> int \<Rightarrow> int \<Rightarrow> 'd st
     \<Rightarrow> (unit res \<times> 'd st) option" where
  "erase_program lower callback address data sector_size page_size s =
     erase_program_loop lower callback address data sector_size page_size 0 (length data) s"

section \<open>The verify and protect operations of the applet\<close>

text \<open>
  The \<^verbatim>\<open>verify\<close> branch of \<^verbatim>\<open>interact\<close> (lines 459-475). \<open>first_differing\<close> is the
  \<^verbatim>\<open>for offset, (gold_byte, flash_byte) in enumerate(zip(gold_data, flash_data))\<close> loop
  with its \<^verbatim>\<open>break\<close>; when the loop ends without it, \<^verbatim>\<open>different_at\<close> is unbound.
  \<open>verify_compare\<close> is the comparison of lines 466-475, \<open>interact_verify\<close> the branch.
\<close>

fun first_differing :: "nat \<Rightarrow> (byte \<times> byte) list \<Rightarrow> (nat \<times> byte \<times> byte) option" where
  "first_differing offset [] = None"
| "first_differing offset ((gold_byte, flash_byte) # rest) =
     (if gold_byte \<noteq> flash_byte then Some (offset, gold_byte, flash_byte)
      else first_differing (Suc offset) rest)"

definition verify_compare ::
  "int \<Rightarrow> byte list \<Rightarrow> byte list \<Rightarrow> 'd st \<Rightarrow> unit res \<times> 'd st" where
  "verify_compare address gold_data flash_data s =
     (if gold_data = flash_data then (Inr (), emit [Log_verify_pass] s)
      else case first_differing 0 (zip gold_data flash_data) of
        None \<Rightarrow> (Inl UnboundLocalError, s)
      | Some (offset, gold_byte, flash_byte) \<Rightarrow>
          (Inl (GlasgowAppletError ''verify FAIL''),
           emit [Log_first_differing (address + int offset) gold_byte flash_byte] s))"

definition interact_verify ::
  "'d lower \<Rightarrow> int \<Rightarrow> byte list \<Rightarrow> 'd st \<Rightarrow> (unit res \<times> 'd st) option" where
  "interact_verify lower address gold_data s =
     bind_res (read lower address (int (length gold_data)) None no_callback s)
       (\<lambda>flash_data s. Some (verify_compare address gold_data flash_data s))"

text \<open>
  The \<^verbatim>\<open>protect\<close> branch of \<^verbatim>\<open>interact\<close> (lines 489-497). \<open>protect_bits\<close> is what the query
  logs, \<open>protect_status\<close> the status the set operation writes; \<^verbatim>\<open>args.bits\<close> is \<open>None\<close> for
  a query.
\<close>

definition protect_bits :: "int \<Rightarrow> int" where
  "protect_bits status = drop_bit 2 (status AND MSK_PROT)"

definition protect_status :: "int \<Rightarrow> int \<Rightarrow> int" where
  "protect_status status bits = (status AND NOT MSK_PROT) OR (push_bit 2 bits AND MSK_PROT)"

definition interact_protect ::
  "'d lower \<Rightarrow> int option \<Rightarrow> 'd st \<Rightarrow> (unit res \<times> 'd st) option" where
  "interact_protect lower bits s =
     bind_res (Some (read_status lower s)) (\<lambda>status s.
       case bits of
         None \<Rightarrow> Some (Inr (), emit [Log_protect_bits (protect_bits status)] s)
       | Some b \<Rightarrow>
           (let status = protect_status status b
            in bind_res (Some (write_enable lower s)) (\<lambda>u s. write_status lower status s)))"

section \<open>Views of the trace\<close>

text \<open>
  The flash-level events of a trace: everything but the transport calls and the messages
  of \<^verbatim>\<open>_command\<close> and \<^verbatim>\<open>read_status\<close>.
\<close>

definition flash_level :: "event \<Rightarrow> bool" where
  "flash_level e =
     (case e of
        Jtag c \<Rightarrow> False
      | Log_cmd cmd arg dummy ret \<Rightarrow> False
      | Log_result v \<Rightarrow> False
      | Log_read_status status \<Rightarrow> False
      | _ \<Rightarrow> True)"

definition flash_events :: "event list \<Rightarrow> event list" where
  "flash_events es = filter flash_level es"

definition jtag_calls :: "event list \<Rightarrow> jtag_call list" where
  "jtag_calls es = concat (map (\<lambda>e. case e of Jtag c \<Rightarrow> [c] | _ \<Rightarrow> []) es)"

definition page_programs :: "event list \<Rightarrow> (int \<times> byte list) list" where
  "page_programs es = concat (map (\<lambda>e. case e of Log_page_program a d \<Rightarrow> [(a, d)] | _ \<Rightarrow> []) es)"

definition sector_erases :: "event list \<Rightarrow> int list" where
  "sector_erases es = concat (map (\<lambda>e. case e of Log_sector_erase a \<Rightarrow> [a] | _ \<Rightarrow> []) es)"

definition write_enables :: "event list \<Rightarrow> nat" where
  "write_enables es = length (filter (\<lambda>e. e = Log_write_enable) es)"

definition callbacks :: "event list \<Rightarrow> report list" where
  "callbacks es = concat (map (\<lambda>e. case e of Callback d t x \<Rightarrow> [(d, t, x)] | _ \<Rightarrow> []) es)"

text \<open>
  A transport is full-duplex when every shift returns as many bits as it is given
  (the interface the applet consumes: send N bits, receive N bits).
\<close>

definition full_duplex :: "'d lower \<Rightarrow> bool" where
  "full_duplex lower = (\<forall>tdi d. length (fst (jtag lower (Shift_tdio tdi) d)) = length tdi)"

text \<open>
  Transports to run the model on. \<open>idle_flash\<close> answers every shift with zero bits:
  a flash whose status register reads 0. \<open>scripted\<close> answers each shift with the next
  entry of a script, cut or padded with zero bits to the length shifted. The values of
  both have the method \<^verbatim>\<open>hex\<close>. \<open>bitarray_flash\<close> is the idle flash behind a transport that
  returns objects of the library's \<^verbatim>\<open>bitarray\<close> class, which have none.
\<close>

definition idle_flash :: "unit lower" where
  "idle_flash =
     \<lparr>jtag = (\<lambda>c d. case c of Shift_tdio tdi \<Rightarrow> (map (\<lambda>b. False) tdi, d) | _ \<Rightarrow> ([], d)),
      has_hex = True\<rparr>"

definition scripted :: "bits list lower" where
  "scripted =
     \<lparr>jtag = (\<lambda>c d.
        case c of
          Shift_tdio tdi \<Rightarrow>
            (case d of
               [] \<Rightarrow> (map (\<lambda>b. False) tdi, [])
             | r # rs \<Rightarrow> (take (length tdi) (r @ map (\<lambda>b. False) tdi), rs))
        | _ \<Rightarrow> ([], d)),
      has_hex = True\<rparr>"

definition bitarray_flash :: "unit lower" where
  "bitarray_flash =
     \<lparr>jtag = (\<lambda>c d. case c of Shift_tdio tdi \<Rightarrow> (map (\<lambda>b. False) tdi, d) | _ \<Rightarrow> ([], d)),
      has_hex = False\<rparr>"

text \<open>The bits of a byte string with every byte most significant bit first.\<close>

definition msb_first :: "byte list \<Rightarrow> bits" where
  "msb_first bs = concat (map (\<lambda>b. rev (bits_of_byte b)) bs)"

text \<open>
  The transport calls of a trace, and those of one \<^verbatim>\<open>_command\<close>: two data-register
  shift cycles, the first with the encoded opcode, argument bytes and dummy bytes, the
  second with the encoded zero bytes.
\<close>

definition shift_cycle :: "bits \<Rightarrow> jtag_call list" where
  "shift_cycle tdi = [Enter_shift_dr, Shift_tdio tdi, Enter_pause_dr]"

definition command_calls :: "byte \<Rightarrow> byte list \<Rightarrow> nat \<Rightarrow> nat \<Rightarrow> jtag_call list" where
  "command_calls cmd arg dummy ret =
     shift_cycle (msb_first ([cmd] @ arg @ replicate dummy 0)) @
     shift_cycle (msb_first (replicate ret 0))"

text \<open>The events of the reports a callback passes on.\<close>

definition report_events :: "report list \<Rightarrow> event list" where
  "report_events rs = map (\<lambda>(d, t, x). Callback d t x) rs"

text \<open>
  The turns of the loop of \<^verbatim>\<open>program\<close> for a page size of at least 1, as a list: for each
  turn the value of \<^verbatim>\<open>done\<close>, the address and the chunk. It serves to state what a run
  of the loop does.
\<close>

function page_chunks :: "int \<Rightarrow> byte list \<Rightarrow> int \<Rightarrow> nat \<Rightarrow> (nat \<times> int \<times> byte list) list" where
  "page_chunks address data page_size n_done =
     (if data = [] \<or> page_size < 1 then []
      else (n_done, address, take (nat (page_size - address mod page_size)) data) #
        page_chunks
          (address + int (length (take (nat (page_size - address mod page_size)) data)))
          (drop (length (take (nat (page_size - address mod page_size)) data)) data)
          page_size
          (n_done + length (take (nat (page_size - address mod page_size)) data)))"
  by pat_completeness auto
termination
proof (relation "measure (\<lambda>(address, data, page_size, n_done). length data)", goal_cases)
  case 1
  show ?case by simp
next
  case (2 address data page_size n_done)
  then have "0 < page_size" and "data \<noteq> []" by auto
  then have "address mod page_size < page_size" by simp
  then have "0 < nat (page_size - address mod page_size)" by simp
  with \<open>data \<noteq> []\<close> show ?case by (cases data) auto
qed

declare page_chunks.simps [simp del]

text \<open>
  The flash-level events of the turns \<open>chunks\<close> of the loop of \<^verbatim>\<open>program\<close>: the report, the
  write enable and the page program of each.
\<close>

definition program_events :: "callback \<Rightarrow> nat \<Rightarrow> (nat \<times> int \<times> byte list) list \<Rightarrow> event list" where
  "program_events callback n_total chunks =
     concat (map (\<lambda>(n, a, d).
       report_events (callback n n_total (Some (Programming_page a))) @
       [Log_write_enable, Log_page_program a d]) chunks)"

text \<open>
  A transport on which the flash reads idle: its values have the method \<^verbatim>\<open>hex\<close> and every
  shift returns zero bits, as many as it is given, so every status read is 0
  (\<open>idle_flash\<close> is one).
\<close>

definition answers_zero :: "'d lower \<Rightarrow> bool" where
  "answers_zero lower =
     (has_hex lower \<and> (\<forall>tdi d. fst (jtag lower (Shift_tdio tdi) d) = map (\<lambda>b. False) tdi))"

section \<open>The bit codec\<close>

lemma hexval_hexdigit: "n < 16 \<Longrightarrow> hexval (hexdigit n) = Some n"
  by (auto simp: hexval_def hexdigit_def Let_def)

lemma not_space_hexdigit: "n < 16 \<Longrightarrow> \<not> is_space (hexdigit n)"
  by (auto simp: is_space_def hexdigit_def Let_def)

lemma unat_byte_div16: "unat (x :: byte) div 16 < 16"
  using unsigned_less [of x, where ?'a = nat] by simp

lemma fromhex_join_02x: "fromhex (join_02x bs) = Some bs"
  by (induction bs)
    (simp_all add: join_02x_def format_02x_def hexval_hexdigit not_space_hexdigit unat_byte_div16)

lemma length_join_02x: "length (join_02x bs) = 2 * length bs"
  by (induction bs) (simp_all add: join_02x_def format_02x_def)

lemma length_bits_of_byte: "length (bits_of_byte b) = 8"
  by (simp add: bits_of_byte_def)

lemma byte_of_bits_of_byte: "byte_of_bits (bits_of_byte b) = b"
  by (simp add: byte_of_bits_def bits_of_byte_def horner_sum_bit_eq_take_bit take_bit_word_eq_self)

lemma tobytes_Nil: "tobytes [] = []"
  by (simp add: tobytes.simps)

lemma tobytes_chunk: "length c = 8 \<Longrightarrow> tobytes (c @ bs) = byte_of_bits c # tobytes bs"
  by (subst tobytes.simps) auto

lemma bytereverse_Nil: "bytereverse [] = []"
  by (simp add: bytereverse.simps)

lemma bytereverse_chunk: "length c = 8 \<Longrightarrow> bytereverse (c @ bs) = rev c @ bytereverse bs"
  by (subst bytereverse.simps) (auto simp: bytereverse1_def)

lemma tobytes_frombytes: "tobytes (frombytes bs) = bs"
  by (induction bs)
    (simp_all add: frombytes_def tobytes_Nil tobytes_chunk length_bits_of_byte byte_of_bits_of_byte)

lemma bytereverse_frombytes: "bytereverse (frombytes bs) = msb_first bs"
  by (induction bs)
    (simp_all add: frombytes_def msb_first_def bytereverse_Nil bytereverse_chunk length_bits_of_byte)

lemma bytereverse_msb_first: "bytereverse (msb_first bs) = frombytes bs"
  by (induction bs)
    (simp_all add: frombytes_def msb_first_def bytereverse_Nil bytereverse_chunk length_bits_of_byte)

lemma reverse_frombytes: "reverse (frombytes bs) = msb_first (rev bs)"
  by (simp add: reverse_def frombytes_def msb_first_def rev_concat rev_map comp_def)

lemma reverse_msb_first: "reverse (msb_first bs) = frombytes (rev bs)"
  by (simp add: reverse_def frombytes_def msb_first_def rev_concat rev_map comp_def)

lemma bitarray_join_02x: "bitarray (join_02x bs) = Some (msb_first bs)"
  by (simp add: bitarray_def rjust0_def length_join_02x fromhex_join_02x bytereverse_frombytes)

lemma hex_to_bitarray_join_02x: "hex_to_bitarray (join_02x bs) = Some (frombytes (rev bs))"
  by (simp add: hex_to_bitarray_def rjust0_def length_join_02x fromhex_join_02x
      reverse_frombytes bytereverse_msb_first)

lemma decode_value_frombytes: "decode_value (frombytes bs) = rev bs"
  by (simp add: decode_value_def reverse_frombytes bytereverse_msb_first tobytes_frombytes)

lemma tobytes_msb_first: "tobytes (msb_first bs) = map bitrev bs"
  by (induction bs)
    (simp_all add: msb_first_def tobytes_Nil tobytes_chunk length_bits_of_byte bitrev_def)

lemma decode_value_msb_first: "decode_value (msb_first bs) = map bitrev (rev bs)"
  by (simp add: decode_value_def reverse_msb_first bytereverse_frombytes tobytes_msb_first)

text \<open>
  C1, as stated, fails for the command direction: the byte string \<open>[0x01]\<close>, encoded by
  \<^verbatim>\<open>_bitarray\<close> and decoded by the reverse-then-bytereverse step of \<^verbatim>\<open>_command\<close>, does
  not come back as \<open>[0x01]\<close> (it comes back as \<open>[0x80]\<close>).
\<close>

theorem C1_command_roundtrip_counterexample:
  "map_option decode_value (bitarray (join_02x [0x01])) \<noteq> Some [0x01]"
  by (simp add: bitarray_join_02x decode_value_msb_first bitrev_def byte_of_bits_def
      bits_of_byte_def upt_rec bit_numeral_word_iff)

text \<open>
  C1, amended. For every byte string \<open>B\<close>, written as hexadecimal digits the way
  \<^verbatim>\<open>_command\<close> writes its buffers: encoding \<open>B\<close> with the instruction-direction codec
  \<^verbatim>\<open>_hex_to_bitarray\<close> and decoding with the reverse-then-bytereverse step of \<^verbatim>\<open>_command\<close>
  yields \<open>B\<close> again; encoding \<open>B\<close> with the command-direction codec \<^verbatim>\<open>_bitarray\<close> and
  decoding with the same step yields the bytes of \<open>B\<close> in reverse order, each with its
  bits reversed.
\<close>

theorem C1_codec_roundtrip:
  "map_option decode_value (hex_to_bitarray (join_02x B)) = Some B \<and>
   map_option decode_value (bitarray (join_02x B)) = Some (map bitrev (rev B))"
  by (simp add: hex_to_bitarray_join_02x bitarray_join_02x decode_value_frombytes
      decode_value_msb_first)

lemma length_msb_first: "length (msb_first bs) = 8 * length bs"
  by (induction bs) (simp_all add: msb_first_def length_bits_of_byte)

lemma length_bytereverse1: "length c \<le> 8 \<Longrightarrow> length (bytereverse1 c) = length c"
  by (simp add: bytereverse1_def)

lemma length_bytereverse: "length (bytereverse bs) = length bs"
proof (induction bs rule: bytereverse.induct)
  case (1 bs)
  show ?case
  proof (cases "bs = []")
    case True
    then show ?thesis by (simp add: bytereverse_Nil)
  next
    case False
    with 1 have "length (bytereverse (drop 8 bs)) = length bs - 8" by simp
    moreover have "length (bytereverse1 (take 8 bs)) = min (length bs) 8"
      by (simp add: length_bytereverse1)
    moreover have "bytereverse bs = bytereverse1 (take 8 bs) @ bytereverse (drop 8 bs)"
      using False by (subst bytereverse.simps) simp
    ultimately show ?thesis by simp
  qed
qed


lemma ceil8_step: "0 < (n::nat) \<Longrightarrow> Suc ((n - 8 + 7) div 8) = (n + 7) div 8"
proof (cases "n < 8")
  case True
  assume "0 < n"
  with True show ?thesis by simp
next
  case False
  then obtain m where "n = m + 8" using le_Suc_ex [of 8 n] by (auto simp: add.commute)
  then show ?thesis by simp
qed

lemma length_tobytes: "length (tobytes bs) = (length bs + 7) div 8"
proof (induction bs rule: tobytes.induct)
  case (1 bs)
  show ?case
  proof (cases "bs = []")
    case True
    then show ?thesis by (simp add: tobytes_Nil)
  next
    case False
    with 1 have "length (tobytes (drop 8 bs)) = (length bs - 8 + 7) div 8" by simp
    moreover have "tobytes bs = byte_of_bits (take 8 bs) # tobytes (drop 8 bs)"
      using False by (subst tobytes.simps) simp
    ultimately have "length (tobytes bs) = Suc ((length bs - 8 + 7) div 8)" by simp
    moreover from False have "0 < length bs" by simp
    ultimately show ?thesis by (simp only: ceil8_step)
  qed
qed

lemma length_decode_value: "length (decode_value v) = (length v + 7) div 8"
  by (simp add: decode_value_def length_tobytes length_bytereverse reverse_def)

section \<open>The SPI transceiver\<close>

lemma call_eq:
  "call lower c s =
     (fst (jtag lower c (dev s)),
      \<lparr>dev = snd (jtag lower c (dev s)), trace = trace s @ [Jtag c]\<rparr>)"
  by (simp add: call_def split_beta)

lemma sdr_array_eq:
  "sdr_array lower tdi s =
    (fst (jtag lower (Shift_tdio tdi) (snd (jtag lower Enter_shift_dr (dev s)))),
     \<lparr>dev = snd (jtag lower Enter_pause_dr
              (snd (jtag lower (Shift_tdio tdi) (snd (jtag lower Enter_shift_dr (dev s)))))),
      trace = trace s @ [Jtag Enter_shift_dr, Jtag (Shift_tdio tdi), Jtag Enter_pause_dr]\<rparr>)"
  by (simp add: sdr_array_def call_eq)

lemma command_eq:
  "command lower cmd arg dummy ret s =
    (let tdi1 = msb_first ([cmd] @ arg @ replicate dummy 0);
         tdi2 = msb_first (replicate ret 0);
         d1 = snd (jtag lower Enter_pause_dr
                (snd (jtag lower (Shift_tdio tdi1) (snd (jtag lower Enter_shift_dr (dev s))))));
         r2 = jtag lower (Shift_tdio tdi2) (snd (jtag lower Enter_shift_dr d1));
         shifted = [Log_cmd cmd arg dummy ret,
            Jtag Enter_shift_dr, Jtag (Shift_tdio tdi1), Jtag Enter_pause_dr,
            Jtag Enter_shift_dr, Jtag (Shift_tdio tdi2), Jtag Enter_pause_dr]
     in if has_hex lower then
          (Inr (decode_value (fst r2)),
           \<lparr>dev = snd (jtag lower Enter_pause_dr (snd r2)),
            trace = trace s @ shifted @ [Log_result (fst r2)]\<rparr>)
        else
          (Inl AttributeError,
           \<lparr>dev = snd (jtag lower Enter_pause_dr (snd r2)), trace = trace s @ shifted\<rparr>))"
  by (simp add: command_def bitarray_join_02x sdr_array_eq emit_def Let_def)

text \<open>
  What \<^verbatim>\<open>_command\<close> does on every transport. It makes exactly two data-register shift
  cycles, each one whole \<^verbatim>\<open>shift_tdio\<close> between entering shift-DR and entering pause-DR:
  the first shifts the \<^verbatim>\<open>_bitarray\<close> encoding of the opcode, the argument bytes and
  \<open>dummy\<close> zero bytes, the second that of \<open>ret\<close> zero bytes. When the values of the
  transport have the method \<^verbatim>\<open>hex\<close> it then returns the decoding of the bits returned for
  the second shift, \<open>ret\<close> bytes when the transport returned as many bits as were shifted;
  when they have not, it raises \<^verbatim>\<open>AttributeError\<close> after the second shift cycle and
  returns nothing.
\<close>

lemma command_two_shifts:
  "let tdi1 = msb_first ([cmd] @ arg @ replicate dummy 0);
       tdi2 = msb_first (replicate ret 0);
       d1 = snd (jtag lower Enter_pause_dr
              (snd (jtag lower (Shift_tdio tdi1) (snd (jtag lower Enter_shift_dr (dev s))))));
       (tdo2, d2) = jtag lower (Shift_tdio tdi2) (snd (jtag lower Enter_shift_dr d1));
       (r, s') = command lower cmd arg dummy ret s
   in bitarray (join_02x ([cmd] @ arg @ replicate dummy 0)) = Some tdi1 \<and>
      bitarray (join_02x (replicate ret 0)) = Some tdi2 \<and>
      jtag_calls (trace s') = jtag_calls (trace s) @
        [Enter_shift_dr, Shift_tdio tdi1, Enter_pause_dr,
         Enter_shift_dr, Shift_tdio tdi2, Enter_pause_dr] \<and>
      dev s' = snd (jtag lower Enter_pause_dr d2) \<and>
      r = (if has_hex lower then Inr (decode_value tdo2) else Inl AttributeError) \<and>
      (length tdo2 = length tdi2 \<longrightarrow> length (decode_value tdo2) = ret)"
  by (simp add: command_eq bitarray_join_02x Let_def split_beta jtag_calls_def
      length_decode_value length_msb_first)

text \<open>
  C7. The code at a call of \<^verbatim>\<open>_command\<close> on a transport that returns objects of the
  library's \<^verbatim>\<open>bitarray\<close> class, here the status read \<^verbatim>\<open>_command(0x05, ret=1)\<close> on an idle
  flash: the call makes its two shift cycles, the opcode and then one zero byte, and
  then raises \<^verbatim>\<open>AttributeError\<close> at \<^verbatim>\<open>value.hex()\<close> (line 69): the bits of the second
  shift are not returned. The same call on the same flash behind a transport whose
  values have the method returns the response, one byte.
\<close>

theorem C7_command_raises_without_hex:
  "fst (command bitarray_flash 0x05 [] 0 1 \<lparr>dev = (), trace = []\<rparr>) = Inl AttributeError \<and>
   jtag_calls (trace (snd (command bitarray_flash 0x05 [] 0 1 \<lparr>dev = (), trace = []\<rparr>))) =
     [Enter_shift_dr, Shift_tdio (msb_first [0x05]), Enter_pause_dr,
      Enter_shift_dr, Shift_tdio (msb_first [0x00]), Enter_pause_dr] \<and>
   fst (command idle_flash 0x05 [] 0 1 \<lparr>dev = (), trace = []\<rparr>) = Inr [0x00]"
  by code_simp

lemma full_duplex_idle_flash: "full_duplex idle_flash"
  by (simp add: full_duplex_def idle_flash_def)

lemma full_duplex_scripted: "full_duplex scripted"
  by (auto simp: full_duplex_def scripted_def split: list.splits)

lemma full_duplex_bitarray_flash: "full_duplex bitarray_flash"
  by (simp add: full_duplex_def bitarray_flash_def)

lemma has_hex_idle_flash: "has_hex idle_flash"
  by (simp add: idle_flash_def)

lemma has_hex_scripted: "has_hex scripted"
  by (simp add: scripted_def)

section \<open>The flash command layer\<close>

lemma command_Inr:
  "has_hex lower \<Longrightarrow> \<exists>bs s'. command lower cmd arg dummy ret s = (Inr bs, s')"
  by (simp add: command_eq Let_def)

lemma command_no_hex:
  "\<not> has_hex lower \<Longrightarrow> \<exists>s'. command lower cmd arg dummy ret s = (Inl AttributeError, s')"
  by (simp add: command_eq Let_def)

lemma command_result:
  "command lower cmd arg dummy ret s = (r, s') \<Longrightarrow>
     (if has_hex lower then \<exists>bs. r = Inr bs else r = Inl AttributeError)"
  by (auto simp: command_eq Let_def split: if_splits)

lemma command_length:
  assumes "full_duplex lower" and "command lower cmd arg dummy ret s = (Inr bs, s')"
  shows "length bs = ret"
  using assms
  by (auto simp: command_eq Let_def full_duplex_def length_decode_value length_msb_first
      split: if_splits)

lemma command_full_duplex:
  assumes "full_duplex lower" and "has_hex lower"
  shows "\<exists>bs s'. command lower cmd arg dummy ret s = (Inr bs, s') \<and> length bs = ret"
proof -
  from command_Inr [OF assms(2)]
  obtain bs s' where c: "command lower cmd arg dummy ret s = (Inr bs, s')" by blast
  from command_length [OF assms(1) c] c show ?thesis by blast
qed

lemma read_status_full_duplex:
  assumes "full_duplex lower" and "has_hex lower"
  shows "\<exists>status s'. read_status lower s = (Inr status, s')"
proof -
  from command_full_duplex [OF assms, of "0x05" "[]" 0 1 s]
  obtain bs s' where c: "command lower 0x05 [] 0 1 s = (Inr bs, s')" and "length bs = 1"
    by blast
  then obtain b where "bs = [b]" by (cases bs) auto
  with c show ?thesis by (simp add: read_status_def)
qed

lemma read_status_no_hex:
  assumes "\<not> has_hex lower"
  shows "\<exists>s'. read_status lower s = (Inl AttributeError, s')"
proof -
  from command_no_hex [OF assms]
  obtain s' where "command lower 0x05 [] 0 1 s = (Inl AttributeError, s')" by blast
  then show ?thesis by (simp add: read_status_def)
qed

text \<open>
  A status read that returns does so on a transport whose values have the method
  \<^verbatim>\<open>hex\<close>, and returns a byte. It never raises \<^verbatim>\<open>ProgramECP5Error\<close>.
\<close>

lemma read_status_Inr:
  assumes "read_status lower s = (Inr status, s')"
  shows "has_hex lower \<and> 0 \<le> status \<and> status < 256"
proof -
  obtain r1 s1 where c: "command lower 0x05 [] 0 1 s = (r1, s1)"
    by (cases "command lower 0x05 [] 0 1 s")
  from command_result [OF c] assms c have "has_hex lower"
    by (cases "has_hex lower") (auto simp: read_status_def)
  moreover from assms c obtain b :: byte where "status = uint b"
    by (auto simp: read_status_def split: sum.splits list.splits)
  moreover have "uint b < 2 ^ 8" for b :: byte
    using uint_bounded [of b] by simp
  ultimately show ?thesis by simp
qed

lemma read_status_not_command_error:
  "fst (read_status lower s) \<noteq> Inl (ProgramECP5Error command_name status)"
proof -
  obtain r1 s1 where c: "command lower 0x05 [] 0 1 s = (r1, s1)"
    by (cases "command lower 0x05 [] 0 1 s")
  from command_result [OF c] c show ?thesis
    by (cases "has_hex lower") (auto simp: read_status_def split: list.splits)
qed

text \<open>
  The decision of \<^verbatim>\<open>write_in_progress\<close> (lines 162-171). It raises the error that names
  the command if and only if a first status read and a second one right after it both
  return and both show WEL set and WIP clear.
\<close>

lemma write_in_progress_command_error_iff:
  "(\<exists>status. fst (write_in_progress lower command_name s) =
        Inl (ProgramECP5Error command_name status)) \<longleftrightarrow>
   (\<exists>s1 t1 s2 t2.
      read_status lower s = (Inr s1, t1) \<and> s1 AND BIT_WEL \<noteq> 0 \<and> s1 AND BIT_WIP = 0 \<and>
      read_status lower t1 = (Inr s2, t2) \<and> s2 AND BIT_WEL \<noteq> 0 \<and> s2 AND BIT_WIP = 0)"
proof -
  obtain r1 t1 where a: "read_status lower s = (r1, t1)" by (cases "read_status lower s")
  obtain r2 t2 where b: "read_status lower t1 = (r2, t2)" by (cases "read_status lower t1")
  from read_status_not_command_error [of lower s command_name] a
  have na: "r1 \<noteq> Inl (ProgramECP5Error command_name status)" for status by simp
  from read_status_not_command_error [of lower t1 command_name] b
  have nb: "r2 \<noteq> Inl (ProgramECP5Error command_name status)" for status by simp
  show ?thesis
  proof (cases r1)
    case (Inl e)
    with a na show ?thesis by (auto simp: write_in_progress_def)
  next
    case r1: (Inr s1)
    show ?thesis
    proof (cases "s1 AND BIT_WEL \<noteq> 0 \<and> s1 AND BIT_WIP = 0")
      case False
      with a r1 show ?thesis by (auto simp: write_in_progress_def)
    next
      case True
      show ?thesis
      proof (cases r2)
        case (Inl e)
        with a b r1 True nb show ?thesis by (auto simp: write_in_progress_def)
      next
        case (Inr s2)
        with a b r1 True show ?thesis by (auto simp: write_in_progress_def)
      qed
    qed
  qed
qed

text \<open>
  On a full-duplex transport whose values have the method \<^verbatim>\<open>hex\<close> a status read returns
  a status. Let \<open>s1\<close> be the status of the first read and \<open>s2\<close> the one a read right after
  it returns. \<^verbatim>\<open>write_in_progress\<close> raises if and only if both show WEL set and WIP clear,
  and the error names the command; when the first read shows WEL set and WIP clear and
  the second does not, it returns the WIP bit of the second read, in the state after
  exactly two reads; otherwise it returns the WIP bit of the first read, in the state
  after that one read.
\<close>

lemma write_in_progress_full_duplex:
  assumes "full_duplex lower" and "has_hex lower"
  shows "\<exists>s1 t1 s2 t2.
     read_status lower s = (Inr s1, t1) \<and> read_status lower t1 = (Inr s2, t2) \<and>
     ((\<exists>e. fst (write_in_progress lower command_name s) = Inl e) \<longleftrightarrow>
        (s1 AND BIT_WEL \<noteq> 0 \<and> s1 AND BIT_WIP = 0) \<and> (s2 AND BIT_WEL \<noteq> 0 \<and> s2 AND BIT_WIP = 0)) \<and>
     write_in_progress lower command_name s =
       (if s1 AND BIT_WEL \<noteq> 0 \<and> s1 AND BIT_WIP = 0 then
          if s2 AND BIT_WEL \<noteq> 0 \<and> s2 AND BIT_WIP = 0
          then (Inl (ProgramECP5Error command_name s2), t2)
          else (Inr (s2 AND BIT_WIP \<noteq> 0), t2)
        else (Inr (s1 AND BIT_WIP \<noteq> 0), t1))"
proof -
  from read_status_full_duplex [OF assms]
  obtain s1 t1 where r1: "read_status lower s = (Inr s1, t1)" by blast
  from read_status_full_duplex [OF assms]
  obtain s2 t2 where r2: "read_status lower t1 = (Inr s2, t2)" by blast
  show ?thesis
    by (rule exI [of _ s1], rule exI [of _ t1], rule exI [of _ s2], rule exI [of _ t2])
      (simp add: r1 r2 write_in_progress_def)
qed

text \<open>
  On a transport whose values have no method \<^verbatim>\<open>hex\<close> the first status read raises, and
  so does \<^verbatim>\<open>write_in_progress\<close>, whatever the flash answers.
\<close>

lemma write_in_progress_no_hex:
  assumes "\<not> has_hex lower"
  shows "\<exists>s'. write_in_progress lower command_name s = (Inl AttributeError, s')"
proof -
  from read_status_no_hex [OF assms]
  obtain s' where "read_status lower s = (Inl AttributeError, s')" by blast
  then show ?thesis by (simp add: write_in_progress_def)
qed


subsection \<open>What each command adds to the flash-level trace\<close>

lemma flash_events_append: "flash_events (xs @ ys) = flash_events xs @ flash_events ys"
  by (simp add: flash_events_def)

lemma bind_res_Some_iff:
  "bind_res m f = Some (r, s') \<longleftrightarrow>
     (\<exists>e. m = Some (Inl e, s') \<and> r = Inl e) \<or> (\<exists>x s1. m = Some (Inr x, s1) \<and> f x s1 = Some (r, s'))"
  by (auto simp: bind_res_def split: option.splits sum.splits prod.splits)

lemma bind_res_Inr_iff:
  "bind_res m f = Some (Inr y, s') \<longleftrightarrow>
     (\<exists>x s1. m = Some (Inr x, s1) \<and> f x s1 = Some (Inr y, s'))"
  by (auto simp: bind_res_def split: option.splits sum.splits prod.splits)

lemma bind_res_simps:
  "bind_res None f = None"
  "bind_res (Some (Inl e, s)) f = Some (Inl e, s)"
  "bind_res (Some (Inr x, s)) f = f x s"
  by (simp_all add: bind_res_def)

lemma command_flash:
  "command lower cmd arg dummy ret s = (r, s') \<Longrightarrow>
     flash_events (trace s') = flash_events (trace s)"
  by (auto simp: command_eq Let_def flash_events_def flash_level_def split: if_splits)

lemma read_status_flash:
  assumes "read_status lower s = (r, s')"
  shows "flash_events (trace s') = flash_events (trace s)"
proof -
  obtain r1 s1 where c: "command lower 0x05 [] 0 1 s = (r1, s1)"
    by (cases "command lower 0x05 [] 0 1 s")
  from command_flash [OF c] assms c show ?thesis
    by (auto simp: read_status_def emit_def flash_events_def flash_level_def
        split: sum.splits list.splits)
qed

lemma write_in_progress_flash:
  assumes "write_in_progress lower command_name s = (r, s')"
  shows "flash_events (trace s') = flash_events (trace s)"
proof -
  obtain r1 s1 where a: "read_status lower s = (r1, s1)" by (cases "read_status lower s")
  obtain r2 s2 where b: "read_status lower s1 = (r2, s2)" by (cases "read_status lower s1")
  from assms read_status_flash [OF a] read_status_flash [OF b] show ?thesis
    by (auto simp: write_in_progress_def a b split: sum.splits if_splits)
qed

lemma wait_write_in_progress_flash:
  assumes "wait_write_in_progress lower command_name s = Some y"
  shows "flash_events (trace (snd y)) = flash_events (trace s)"
proof (rule wait_write_in_progress.raw_induct
    [where P = "\<lambda>lower command_name s y. flash_events (trace (snd y)) = flash_events (trace s)",
      OF _ assms], goal_cases)
  case (1 wait lower command_name s y)
  obtain r1 s1 where a: "write_in_progress lower command_name s = (r1, s1)"
    by (cases "write_in_progress lower command_name s")
  from 1 write_in_progress_flash [OF a] show ?case
    by (auto simp: a split: sum.splits if_splits)
qed

lemma write_enable_flash:
  assumes "write_enable lower s = (r, s')"
  shows "flash_events (trace s') = flash_events (trace s) @ [Log_write_enable]"
proof -
  obtain r1 s1 where c: "command lower 0x06 [] 0 0 (emit [Log_write_enable] s) = (r1, s1)"
    by (cases "command lower 0x06 [] 0 0 (emit [Log_write_enable] s)")
  from command_flash [OF c] c assms show ?thesis
    by (cases r1) (auto simp: write_enable_def emit_def flash_events_def flash_level_def)
qed

lemma write_enable_Inr:
  assumes "has_hex lower"
  shows "\<exists>s'. write_enable lower s = (Inr (), s')"
proof -
  from command_Inr [OF assms]
  obtain bs s1 where "command lower 0x06 [] 0 0 (emit [Log_write_enable] s) = (Inr bs, s1)"
    by blast
  then show ?thesis by (simp add: write_enable_def)
qed

lemma write_enable_no_hex:
  assumes "\<not> has_hex lower"
  shows "\<exists>s'. write_enable lower s = (Inl AttributeError, s')"
proof -
  from command_no_hex [OF assms]
  obtain s1 where "command lower 0x06 [] 0 0 (emit [Log_write_enable] s) =
      (Inl AttributeError, s1)"
    by blast
  then show ?thesis by (simp add: write_enable_def)
qed

lemma command_then_wait_flash:
  assumes "bind_res (Some (command lower cmd arg dummy ret s))
      (\<lambda>v s. wait_write_in_progress lower command_name s) = Some (r, s')"
  shows "flash_events (trace s') = flash_events (trace s)"
proof -
  obtain r1 s1 where c: "command lower cmd arg dummy ret s = (r1, s1)"
    by (cases "command lower cmd arg dummy ret s")
  show ?thesis
  proof (cases r1)
    case (Inl e)
    with assms c have "s' = s1" by (simp add: bind_res_simps)
    with command_flash [OF c] show ?thesis by simp
  next
    case (Inr v)
    with assms c have "wait_write_in_progress lower command_name s1 = Some (r, s')"
      by (simp add: bind_res_simps)
    from wait_write_in_progress_flash [OF this] command_flash [OF c] show ?thesis by simp
  qed
qed

lemma page_program_flash:
  assumes "page_program lower address data s = Some (r, s')"
  shows "flash_events (trace s') = flash_events (trace s) @ [Log_page_program address data]"
proof -
  from assms have "bind_res
      (Some (command lower 0x02 (format_addr address @ data) 0 0
         (emit [Log_page_program address data] s)))
      (\<lambda>v s. wait_write_in_progress lower ''PAGE PROGRAM'' s) = Some (r, s')"
    by (simp add: page_program_def)
  from command_then_wait_flash [OF this] show ?thesis
    by (simp add: emit_def flash_events_def flash_level_def)
qed

lemma sector_erase_flash:
  assumes "sector_erase lower address s = Some (r, s')"
  shows "flash_events (trace s') = flash_events (trace s) @ [Log_sector_erase address]"
proof -
  from assms have "bind_res
      (Some (command lower 0x20 (format_addr address) 0 0 (emit [Log_sector_erase address] s)))
      (\<lambda>v s. wait_write_in_progress lower ''SECTOR ERASE'' s) = Some (r, s')"
    by (simp add: sector_erase_def)
  from command_then_wait_flash [OF this] show ?thesis
    by (simp add: emit_def flash_events_def flash_level_def)
qed

lemma write_status_flash:
  assumes "write_status lower status s = Some (r, s')"
  shows "flash_events (trace s') = flash_events (trace s) @ [Log_write_status status]"
proof (cases "0 \<le> status \<and> status < 256")
  case True
  with assms have "bind_res
      (Some (command lower 0x01 [word_of_int status] 0 0 (emit [Log_write_status status] s)))
      (\<lambda>v s. wait_write_in_progress lower ''WRITE STATUS'' s) = Some (r, s')"
    by (simp add: write_status_def)
  from command_then_wait_flash [OF this] show ?thesis
    by (simp add: emit_def flash_events_def flash_level_def)
next
  case False
  with assms show ?thesis
    by (auto simp: write_status_def emit_def flash_events_def flash_level_def)
qed

subsection \<open>What each command sends to the transport\<close>

lemma jtag_calls_append: "jtag_calls (xs @ ys) = jtag_calls xs @ jtag_calls ys"
  by (simp add: jtag_calls_def)

lemma command_jtag:
  "command lower cmd arg dummy ret s = (r, s') \<Longrightarrow>
     jtag_calls (trace s') = jtag_calls (trace s) @ command_calls cmd arg dummy ret"
  by (auto simp: command_eq Let_def jtag_calls_def command_calls_def shift_cycle_def
      split: if_splits)

lemma read_status_jtag:
  assumes "read_status lower s = (r, s')"
  shows "jtag_calls (trace s') = jtag_calls (trace s) @ command_calls 0x05 [] 0 1"
proof -
  obtain r1 s1 where c: "command lower 0x05 [] 0 1 s = (r1, s1)"
    by (cases "command lower 0x05 [] 0 1 s")
  from command_jtag [OF c] assms c show ?thesis
    by (auto simp: read_status_def emit_def jtag_calls_def split: sum.splits list.splits)
qed

lemma write_in_progress_jtag:
  assumes "write_in_progress lower command_name s = (r, s')"
  shows "\<exists>k. 0 < k \<and> jtag_calls (trace s') =
     jtag_calls (trace s) @ concat (replicate k (command_calls 0x05 [] 0 1))"
proof -
  obtain r1 s1 where a: "read_status lower s = (r1, s1)" by (cases "read_status lower s")
  obtain r2 s2 where b: "read_status lower s1 = (r2, s2)" by (cases "read_status lower s1")
  have one: "jtag_calls (trace s1) =
      jtag_calls (trace s) @ concat (replicate 1 (command_calls 0x05 [] 0 1))"
    using read_status_jtag [OF a] by simp
  have two: "jtag_calls (trace s2) =
      jtag_calls (trace s) @ concat (replicate 2 (command_calls 0x05 [] 0 1))"
    using read_status_jtag [OF a] read_status_jtag [OF b] by (simp add: numeral_2_eq_2)
  from assms have "s' = s1 \<or> s' = s2"
    by (auto simp: write_in_progress_def a b split: sum.splits if_splits)
  then show ?thesis
  proof
    assume "s' = s1"
    with one show ?thesis by (intro exI [of _ 1]) simp
  next
    assume "s' = s2"
    with two show ?thesis by (intro exI [of _ 2]) simp
  qed
qed

lemma wait_write_in_progress_jtag:
  assumes "wait_write_in_progress lower command_name s = Some y"
  shows "\<exists>k. 0 < k \<and> jtag_calls (trace (snd y)) =
     jtag_calls (trace s) @ concat (replicate k (command_calls 0x05 [] 0 1))"
proof (rule wait_write_in_progress.raw_induct
    [where P = "\<lambda>lower command_name s y. \<exists>k. 0 < k \<and> jtag_calls (trace (snd y)) =
       jtag_calls (trace s) @ concat (replicate k (command_calls 0x05 [] 0 1))",
      OF _ assms], goal_cases)
  case (1 wait lower command_name s y)
  obtain r1 s1 where a: "write_in_progress lower command_name s = (r1, s1)"
    by (cases "write_in_progress lower command_name s")
  from write_in_progress_jtag [OF a]
  obtain k where k: "0 < k" "jtag_calls (trace s1) =
     jtag_calls (trace s) @ concat (replicate k (command_calls 0x05 [] 0 1))" by blast
  show ?case
  proof (cases "r1 = Inr True")
    case False
    with 1(2) a have "snd y = s1" by (cases r1) (auto split: if_splits)
    with k show ?thesis by auto
  next
    case True
    with 1(2) a have "wait lower command_name s1 = Some y" by simp
    from 1(1) [OF this]
    obtain j where j: "jtag_calls (trace (snd y)) =
       jtag_calls (trace s1) @ concat (replicate j (command_calls 0x05 [] 0 1))" by blast
    have "jtag_calls (trace (snd y)) =
       jtag_calls (trace s) @ concat (replicate (k + j) (command_calls 0x05 [] 0 1))"
      by (simp add: j k(2) replicate_add)
    with k(1) show ?thesis by (intro exI [of _ "k + j"]) simp
  qed
qed

lemma write_enable_jtag:
  assumes "write_enable lower s = (r, s')"
  shows "jtag_calls (trace s') = jtag_calls (trace s) @ command_calls 0x06 [] 0 0"
proof -
  obtain r1 s1 where c: "command lower 0x06 [] 0 0 (emit [Log_write_enable] s) = (r1, s1)"
    by (cases "command lower 0x06 [] 0 0 (emit [Log_write_enable] s)")
  from command_jtag [OF c] c assms show ?thesis
    by (cases r1) (auto simp: write_enable_def emit_def jtag_calls_def)
qed

lemma write_status_jtag:
  assumes "has_hex lower" and "0 \<le> status" and "status < 256"
    and "write_status lower status s = Some (r, s')"
  shows "\<exists>k. 0 < k \<and> jtag_calls (trace s') =
     jtag_calls (trace s) @ command_calls 0x01 [word_of_int status] 0 0 @
     concat (replicate k (command_calls 0x05 [] 0 1))"
proof -
  let ?s0 = "emit [Log_write_status status] s"
  from command_Inr [OF assms(1)]
  obtain bs s1 where c: "command lower 0x01 [word_of_int status] 0 0 ?s0 = (Inr bs, s1)"
    by blast
  from assms(2-4) c have "wait_write_in_progress lower ''WRITE STATUS'' s1 = Some (r, s')"
    by (simp add: write_status_def bind_res_simps)
  from wait_write_in_progress_jtag [OF this]
  obtain k where k: "0 < k" "jtag_calls (trace s') =
     jtag_calls (trace s1) @ concat (replicate k (command_calls 0x05 [] 0 1))" by auto
  from command_jtag [OF c] have "jtag_calls (trace s1) =
     jtag_calls (trace s) @ command_calls 0x01 [word_of_int status] 0 0"
    by (simp add: emit_def jtag_calls_def)
  with k show ?thesis by auto
qed

section \<open>The bulk operations\<close>

lemma notify_eq: "notify callback n t x s = emit (report_events (callback n t x)) s"
  by (simp add: notify_def report_events_def)

lemma flash_events_report_events: "flash_events (report_events rs) = report_events rs"
  by (induction rs) (auto simp: flash_events_def report_events_def flash_level_def)

lemma notify_flash:
  "flash_events (trace (notify callback n t x s)) =
     flash_events (trace s) @ report_events (callback n t x)"
  by (simp add: notify_eq emit_def flash_events_append flash_events_report_events)

lemma page_chunks_Nil: "page_chunks address [] page_size n_done = []"
  by (simp add: page_chunks.simps)

lemma page_chunks_Cons:
  assumes "data \<noteq> []" "1 \<le> page_size"
  shows "page_chunks address data page_size n_done =
    (n_done, address, take (nat (page_size - address mod page_size)) data) #
    page_chunks
      (address + int (length (take (nat (page_size - address mod page_size)) data)))
      (drop (length (take (nat (page_size - address mod page_size)) data)) data)
      page_size
      (n_done + length (take (nat (page_size - address mod page_size)) data))"
  using assms by (subst page_chunks.simps) simp

lemma slice_to_pos: "0 \<le> k \<Longrightarrow> slice_to xs k = take (nat k) xs"
  by (auto simp: slice_to_def slice_index_def min_def)

lemma program_events_Nil: "program_events callback n_total [] = []"
  by (simp add: program_events_def)

lemma program_events_Cons:
  "program_events callback n_total ((n, a, d) # chunks) =
     report_events (callback n n_total (Some (Programming_page a))) @
     [Log_write_enable, Log_page_program a d] @ program_events callback n_total chunks"
  by (simp add: program_events_def)

lemma program_loop_flash:
  assumes "program_loop lower callback address data page_size n_done n_total s = Some y"
  shows "1 \<le> page_size \<longrightarrow> fst y = Inr () \<longrightarrow>
    flash_events (trace (snd y)) = flash_events (trace s) @
      program_events callback n_total (page_chunks address data page_size n_done) @
      report_events (callback (n_done + length data) n_total None)"
proof (rule program_loop.raw_induct
    [where P = "\<lambda>lower callback address data page_size n_done n_total s y.
      1 \<le> page_size \<longrightarrow> fst y = Inr () \<longrightarrow>
      flash_events (trace (snd y)) = flash_events (trace s) @
        program_events callback n_total (page_chunks address data page_size n_done) @
        report_events (callback (n_done + length data) n_total None)",
      OF _ assms], goal_cases)
  case (1 loop lower callback address data page_size n_done n_total s y)
  show ?case
  proof (intro impI)
    assume ps: "1 \<le> page_size" and ok: "fst y = Inr ()"
    obtain s' where y: "y = (Inr (), s')" using ok by (cases y) auto
    show "flash_events (trace (snd y)) = flash_events (trace s) @
        program_events callback n_total (page_chunks address data page_size n_done) @
        report_events (callback (n_done + length data) n_total None)"
    proof (cases "data = []")
      case True
      with 1(2) show ?thesis
        by (auto simp: page_chunks_Nil program_events_Nil notify_flash)
    next
      case False
      define chunk where "chunk = take (nat (page_size - address mod page_size)) data"
      define s0 where "s0 = notify callback n_done n_total (Some (Programming_page address)) s"
      from ps have "0 < page_size" by simp
      then have "address mod page_size < page_size" by (rule pos_mod_bound)
      then have "0 \<le> page_size - address mod page_size" by simp
      then have sl: "slice_to data (page_size - address mod page_size) = chunk"
        by (simp add: slice_to_pos chunk_def)
      have f0: "flash_events (trace s0) = flash_events (trace s) @
          report_events (callback n_done n_total (Some (Programming_page address)))"
        by (simp add: s0_def notify_flash)
      have pc: "page_chunks address data page_size n_done =
          (n_done, address, chunk) #
          page_chunks (address + int (length chunk)) (drop (length chunk) data) page_size
            (n_done + length chunk)"
        using page_chunks_Cons [OF False ps] by (simp add: chunk_def)
      from False ps 1(2) have body:
        "bind_res (Some (write_enable lower s0)) (\<lambda>u s.
           bind_res (page_program lower address chunk s) (\<lambda>u s.
             loop lower callback (address + int (length chunk)) (drop (length chunk) data)
               page_size (n_done + length chunk) n_total s)) = Some (Inr (), s')"
        by (simp add: sl Let_def s0_def [symmetric] y)
      then obtain s1 where we: "write_enable lower s0 = (Inr (), s1)"
        and rest: "bind_res (page_program lower address chunk s1) (\<lambda>u s.
             loop lower callback (address + int (length chunk)) (drop (length chunk) data)
               page_size (n_done + length chunk) n_total s) = Some (Inr (), s')"
        unfolding bind_res_Inr_iff by auto
      from rest obtain s2 where pp: "page_program lower address chunk s1 = Some (Inr (), s2)"
        and rec: "loop lower callback (address + int (length chunk)) (drop (length chunk) data)
             page_size (n_done + length chunk) n_total s2 = Some (Inr (), s')"
        unfolding bind_res_Inr_iff by auto
      have f2: "flash_events (trace s2) = flash_events (trace s) @
          report_events (callback n_done n_total (Some (Programming_page address))) @
          [Log_write_enable, Log_page_program address chunk]"
        using page_program_flash [OF pp] write_enable_flash [OF we] f0 by simp
      have len: "n_done + length chunk + length (drop (length chunk) data) = n_done + length data"
        by (simp add: chunk_def)
      from 1(1) [OF rec] ps
      have "flash_events (trace s') = flash_events (trace s2) @
          program_events callback n_total
            (page_chunks (address + int (length chunk)) (drop (length chunk) data) page_size
               (n_done + length chunk)) @
          report_events (callback (n_done + length chunk + length (drop (length chunk) data))
            n_total None)" by simp
      with len show ?thesis
        by (simp add: y f2 pc program_events_Cons)
    qed
  qed
qed

subsection \<open>Views of the flash-level trace\<close>

lemma page_programs_append: "page_programs (xs @ ys) = page_programs xs @ page_programs ys"
  by (simp add: page_programs_def)

lemma callbacks_append: "callbacks (xs @ ys) = callbacks xs @ callbacks ys"
  by (simp add: callbacks_def)

lemma sector_erases_append: "sector_erases (xs @ ys) = sector_erases xs @ sector_erases ys"
  by (simp add: sector_erases_def)

lemma write_enables_append: "write_enables (xs @ ys) = write_enables xs + write_enables ys"
  by (simp add: write_enables_def)

lemma page_programs_flash_events: "page_programs (flash_events es) = page_programs es"
  by (induction es) (auto simp: page_programs_def flash_events_def flash_level_def split: event.splits)

lemma callbacks_flash_events: "callbacks (flash_events es) = callbacks es"
  by (induction es) (auto simp: callbacks_def flash_events_def flash_level_def split: event.splits)

lemma sector_erases_flash_events: "sector_erases (flash_events es) = sector_erases es"
  by (induction es) (auto simp: sector_erases_def flash_events_def flash_level_def split: event.splits)

lemma write_enables_flash_events: "write_enables (flash_events es) = write_enables es"
  by (induction es) (auto simp: write_enables_def flash_events_def flash_level_def split: event.splits)

lemma page_programs_of_flash:
  assumes "flash_events t' = flash_events t @ es"
  shows "page_programs t' = page_programs t @ page_programs es"
proof -
  have "page_programs t' = page_programs (flash_events t')"
    by (simp add: page_programs_flash_events)
  also have "\<dots> = page_programs (flash_events t) @ page_programs es"
    by (simp add: assms page_programs_append)
  finally show ?thesis by (simp add: page_programs_flash_events)
qed

lemma callbacks_of_flash:
  assumes "flash_events t' = flash_events t @ es"
  shows "callbacks t' = callbacks t @ callbacks es"
proof -
  have "callbacks t' = callbacks (flash_events t')"
    by (simp add: callbacks_flash_events)
  also have "\<dots> = callbacks (flash_events t) @ callbacks es"
    by (simp add: assms callbacks_append)
  finally show ?thesis by (simp add: callbacks_flash_events)
qed

lemma sector_erases_of_flash:
  assumes "flash_events t' = flash_events t @ es"
  shows "sector_erases t' = sector_erases t @ sector_erases es"
proof -
  have "sector_erases t' = sector_erases (flash_events t')"
    by (simp add: sector_erases_flash_events)
  also have "\<dots> = sector_erases (flash_events t) @ sector_erases es"
    by (simp add: assms sector_erases_append)
  finally show ?thesis by (simp add: sector_erases_flash_events)
qed

lemma page_programs_Cons:
  "page_programs (e # es) =
     (case e of Log_page_program a d \<Rightarrow> [(a, d)] | _ \<Rightarrow> []) @ page_programs es"
  by (simp add: page_programs_def)

lemma callbacks_Cons:
  "callbacks (e # es) = (case e of Callback d t x \<Rightarrow> [(d, t, x)] | _ \<Rightarrow> []) @ callbacks es"
  by (simp add: callbacks_def)

lemma take_drop_length_take: "take k xs @ drop (length (take k xs)) xs = xs"
  by (simp add: min_def)

lemma page_programs_report_events: "page_programs (report_events rs) = []"
  by (induction rs) (auto simp: page_programs_def report_events_def)

lemma callbacks_report_events: "callbacks (report_events rs) = rs"
  by (induction rs) (auto simp: callbacks_def report_events_def)

lemma page_programs_program_events:
  "page_programs (program_events callback n_total chunks) = map snd chunks"
proof (induction chunks)
  case Nil
  show ?case by (simp add: program_events_Nil page_programs_def)
next
  case (Cons c chunks)
  obtain n a d where c: "c = (n, a, d)" by (cases c)
  from Cons show ?case
    by (simp add: c program_events_Cons page_programs_append page_programs_report_events
        page_programs_Cons)
qed

lemma callbacks_program_events_observer:
  "callbacks (program_events observer n_total chunks) =
     map (\<lambda>(n, a, d). (n, n_total, Some (Programming_page a))) chunks"
proof (induction chunks)
  case Nil
  show ?case by (simp add: program_events_Nil callbacks_def)
next
  case (Cons c chunks)
  obtain n a d where c: "c = (n, a, d)" by (cases c)
  from Cons show ?case
    by (simp add: c program_events_Cons callbacks_append callbacks_report_events observer_def
        callbacks_Cons)
qed

lemma notify_page_programs:
  "page_programs (trace (notify callback n t x s)) = page_programs (trace s)"
  by (simp add: notify_eq emit_def page_programs_append page_programs_report_events)

lemma write_enable_page_programs:
  assumes "write_enable lower s = (r, s')"
  shows "page_programs (trace s') = page_programs (trace s)"
  using page_programs_of_flash [OF write_enable_flash [OF assms]] by (simp add: page_programs_def)

lemma page_program_page_programs:
  assumes "page_program lower address data s = Some (r, s')"
  shows "page_programs (trace s') = page_programs (trace s) @ [(address, data)]"
  using page_programs_of_flash [OF page_program_flash [OF assms]] by (simp add: page_programs_def)

text \<open>
  The page programs of a run of the loop of \<^verbatim>\<open>program\<close> that returns, normally or with
  an error: those of the first turns of the loop, up to the turn at which it stopped.
\<close>

lemma program_loop_page_programs:
  assumes "program_loop lower callback address data page_size n_done n_total s = Some y"
  shows "1 \<le> page_size \<longrightarrow>
    (\<exists>k. page_programs (trace (snd y)) = page_programs (trace s) @
       map snd (take k (page_chunks address data page_size n_done)))"
proof (rule program_loop.raw_induct
    [where P = "\<lambda>lower callback address data page_size n_done n_total s y.
      1 \<le> page_size \<longrightarrow>
      (\<exists>k. page_programs (trace (snd y)) = page_programs (trace s) @
         map snd (take k (page_chunks address data page_size n_done)))",
      OF _ assms], goal_cases)
  case (1 loop lower callback address data page_size n_done n_total s y)
  show ?case
  proof (intro impI)
    assume ps: "1 \<le> page_size"
    show "\<exists>k. page_programs (trace (snd y)) = page_programs (trace s) @
         map snd (take k (page_chunks address data page_size n_done))"
    proof (cases "data = []")
      case True
      with 1(2) have "page_programs (trace (snd y)) = page_programs (trace s)"
        by (auto simp: notify_page_programs)
      then show ?thesis by (intro exI [of _ 0]) simp
    next
      case False
      define chunk where "chunk = take (nat (page_size - address mod page_size)) data"
      define s0 where "s0 = notify callback n_done n_total (Some (Programming_page address)) s"
      from ps have "0 < page_size" by simp
      then have "address mod page_size < page_size" by (rule pos_mod_bound)
      then have "0 \<le> page_size - address mod page_size" by simp
      then have sl: "slice_to data (page_size - address mod page_size) = chunk"
        by (simp add: slice_to_pos chunk_def)
      have p0: "page_programs (trace s0) = page_programs (trace s)"
        by (simp add: s0_def notify_page_programs)
      have pc: "page_chunks address data page_size n_done =
          (n_done, address, chunk) #
          page_chunks (address + int (length chunk)) (drop (length chunk) data) page_size
            (n_done + length chunk)"
        using page_chunks_Cons [OF False ps] by (simp add: chunk_def)
      obtain r1 s1 where we: "write_enable lower s0 = (r1, s1)"
        by (cases "write_enable lower s0")
      have p1: "page_programs (trace s1) = page_programs (trace s)"
        using write_enable_page_programs [OF we] p0 by simp
      from False ps 1(2) have body:
        "bind_res (Some (r1, s1)) (\<lambda>u s.
           bind_res (page_program lower address chunk s) (\<lambda>u s.
             loop lower callback (address + int (length chunk)) (drop (length chunk) data)
               page_size (n_done + length chunk) n_total s)) = Some y"
        by (simp add: sl Let_def s0_def [symmetric] we)
      show ?thesis
      proof (cases r1)
        case (Inl e)
        with body have "snd y = s1" by (auto simp: bind_res_simps)
        with p1 show ?thesis by (intro exI [of _ 0]) simp
      next
        case (Inr u)
        with body have body2:
          "bind_res (page_program lower address chunk s1) (\<lambda>u s.
             loop lower callback (address + int (length chunk)) (drop (length chunk) data)
               page_size (n_done + length chunk) n_total s) = Some y"
          by (simp add: bind_res_simps)
        obtain r s' where y: "y = (r, s')" by (cases y)
        from body2 [unfolded y bind_res_Some_iff]
        show ?thesis
        proof (elim disjE exE conjE)
          fix e
          assume pp: "page_program lower address chunk s1 = Some (Inl e, s')"
          from page_program_page_programs [OF pp] p1
          have "page_programs (trace s') = page_programs (trace s) @
              map snd (take 1 (page_chunks address data page_size n_done))"
            by (simp add: pc)
          then show ?thesis unfolding y snd_conv by (rule exI)
        next
          fix v s2
          assume pp: "page_program lower address chunk s1 = Some (Inr v, s2)"
            and rec: "loop lower callback (address + int (length chunk))
               (drop (length chunk) data) page_size (n_done + length chunk) n_total s2 =
               Some (r, s')"
          from 1(1) [OF rec] ps obtain k where "page_programs (trace s') =
              page_programs (trace s2) @ map snd (take k
                (page_chunks (address + int (length chunk)) (drop (length chunk) data) page_size
                   (n_done + length chunk)))" by auto
          with page_program_page_programs [OF pp] p1
          have "page_programs (trace s') = page_programs (trace s) @
              map snd (take (Suc k) (page_chunks address data page_size n_done))"
            by (simp add: pc)
          then show ?thesis unfolding y snd_conv by (rule exI)
        qed
      qed
    qed
  qed
qed

subsection \<open>The chunks of \<^verbatim>\<open>program\<close>\<close>

lemma page_chunks_small: "page_size < 1 \<Longrightarrow> page_chunks address data page_size n_done = []"
  by (simp add: page_chunks.simps)

lemma page_chunks_within_page:
  "(n, a, d) \<in> set (page_chunks address data page_size n_done) \<Longrightarrow>
     d \<noteq> [] \<and> a mod page_size + int (length d) \<le> page_size"
proof (induction address data page_size n_done rule: page_chunks.induct)
  case (1 address data page_size n_done)
  show ?case
  proof (cases "data = [] \<or> page_size < 1")
    case True
    with 1(2) show ?thesis by (auto simp: page_chunks.simps)
  next
    case False
    then have ne: "data \<noteq> []" and ps: "1 \<le> page_size" by auto
    from ps have "0 < page_size" by simp
    then have bound: "address mod page_size < page_size" by (rule pos_mod_bound)
    let ?chunk = "take (nat (page_size - address mod page_size)) data"
    from 1(2) page_chunks_Cons [OF ne ps, of address n_done]
    consider "(n, a, d) = (n_done, address, ?chunk)"
      | "(n, a, d) \<in> set (page_chunks (address + int (length ?chunk))
            (drop (length ?chunk) data) page_size (n_done + length ?chunk))"
      by auto
    then show ?thesis
    proof cases
      case 1
      with ne bound show ?thesis by (cases data) auto
    next
      case 2
      with "1.IH" [OF False] show ?thesis by simp
    qed
  qed
qed

lemma concat_page_chunks:
  "1 \<le> page_size \<Longrightarrow>
     concat (map (\<lambda>c. snd (snd c)) (page_chunks address data page_size n_done)) = data"
proof (induction address data page_size n_done rule: page_chunks.induct)
  case (1 address data page_size n_done)
  show ?case
  proof (cases "data = []")
    case True
    then show ?thesis by (simp add: page_chunks_Nil)
  next
    case False
    with 1 show ?thesis
      by (simp add: page_chunks_Cons [OF False "1.prems"] take_drop_length_take
          del: length_take)
  qed
qed

lemma page_chunks_aligned:
  "address mod page_size = 0 \<Longrightarrow>
     (\<forall>c \<in> set (page_chunks address data page_size n_done). fst (snd c) mod page_size = 0) \<and>
     (\<forall>c \<in> set (butlast (page_chunks address data page_size n_done)).
        int (length (snd (snd c))) = page_size)"
proof (induction address data page_size n_done rule: page_chunks.induct)
  case (1 address data page_size n_done)
  show ?case
  proof (cases "data = [] \<or> page_size < 1")
    case True
    then show ?thesis by (auto simp: page_chunks.simps)
  next
    case False
    then have ne: "data \<noteq> []" and ps: "1 \<le> page_size" by auto
    let ?k = "nat (page_size - address mod page_size)"
    let ?chunk = "take ?k data"
    let ?rest = "page_chunks (address + int (length ?chunk)) (drop (length ?chunk) data)
       page_size (n_done + length ?chunk)"
    have pc: "page_chunks address data page_size n_done = (n_done, address, ?chunk) # ?rest"
      by (rule page_chunks_Cons [OF ne ps])
    from "1.prems" ps have k: "?k = nat page_size" by simp
    show ?thesis
    proof (cases "length data \<le> ?k")
      case True
      then have "drop (length ?chunk) data = []" by simp
      then have "?rest = []" by (simp only: page_chunks_Nil)
      with "1.prems" show ?thesis by (simp add: pc)
    next
      case False
      then have len: "int (length ?chunk) = page_size" using ps k by simp
      then have "(address + int (length ?chunk)) mod page_size = 0"
        using "1.prems" by simp
      from "1.IH" [OF \<open>\<not> (data = [] \<or> page_size < 1)\<close> this]
      have IH: "(\<forall>c \<in> set ?rest. fst (snd c) mod page_size = 0) \<and>
         (\<forall>c \<in> set (butlast ?rest). int (length (snd (snd c))) = page_size)" .
      from IH "1.prems" len show ?thesis
        by (simp only: pc) (auto simp del: length_take)
    qed
  qed
qed

lemma page_chunks_tail:
  assumes "data \<noteq> []" "1 \<le> page_size"
  shows "(\<forall>c \<in> set (tl (page_chunks address data page_size n_done)). fst (snd c) mod page_size = 0) \<and>
     (\<forall>c \<in> set (butlast (tl (page_chunks address data page_size n_done))).
        int (length (snd (snd c))) = page_size)"
proof -
  let ?k = "nat (page_size - address mod page_size)"
  let ?chunk = "take ?k data"
  let ?rest = "page_chunks (address + int (length ?chunk)) (drop (length ?chunk) data)
       page_size (n_done + length ?chunk)"
  have pc: "page_chunks address data page_size n_done = (n_done, address, ?chunk) # ?rest"
    by (rule page_chunks_Cons [OF assms])
  from assms have "0 < page_size" by simp
  then have bound: "address mod page_size < page_size" by (rule pos_mod_bound)
  show ?thesis
  proof (cases "length data \<le> ?k")
    case True
    then have "drop (length ?chunk) data = []" by simp
    then have "?rest = []" by (simp only: page_chunks_Nil)
    then show ?thesis by (simp add: pc)
  next
    case False
    then have "int (length ?chunk) = page_size - address mod page_size" using bound by simp
    then have "address + int (length ?chunk) = address - address mod page_size + page_size"
      by simp
    then have "(address + int (length ?chunk)) mod page_size = 0"
      by (simp add: minus_mod_eq_mult_div)
    from page_chunks_aligned [OF this] show ?thesis by (simp only: pc list.sel)
  qed
qed

lemma page_chunks_consecutive:
  "Suc i < length (page_chunks address data page_size n_done) \<Longrightarrow>
     fst (page_chunks address data page_size n_done ! Suc i) =
       fst (page_chunks address data page_size n_done ! i) +
       length (snd (snd (page_chunks address data page_size n_done ! i))) \<and>
     fst (snd (page_chunks address data page_size n_done ! Suc i)) =
       fst (snd (page_chunks address data page_size n_done ! i)) +
       int (length (snd (snd (page_chunks address data page_size n_done ! i))))"
proof (induction address data page_size n_done arbitrary: i rule: page_chunks.induct)
  case (1 address data page_size n_done)
  show ?case
  proof (cases "data = [] \<or> page_size < 1")
    case True
    with "1.prems" show ?thesis by (simp add: page_chunks.simps)
  next
    case False
    then have ne: "data \<noteq> []" and ps: "1 \<le> page_size" by auto
    let ?k = "nat (page_size - address mod page_size)"
    let ?chunk = "take ?k data"
    let ?rest = "page_chunks (address + int (length ?chunk)) (drop (length ?chunk) data)
       page_size (n_done + length ?chunk)"
    have pc: "page_chunks address data page_size n_done = (n_done, address, ?chunk) # ?rest"
      by (rule page_chunks_Cons [OF ne ps])
    show ?thesis
    proof (cases i)
      case 0
      with "1.prems" have "?rest \<noteq> []" by (simp only: pc) auto
      then have "drop (length ?chunk) data \<noteq> []"
        using page_chunks_Nil by metis
      then have hd: "?rest ! 0 = (n_done + length ?chunk, address + int (length ?chunk),
          take (nat (page_size - (address + int (length ?chunk)) mod page_size))
            (drop (length ?chunk) data))"
        by (subst page_chunks_Cons [OF _ ps]) simp_all
      show ?thesis
        by (simp only: pc 0 nth_Cons_Suc nth_Cons_0 hd fst_conv snd_conv)
    next
      case (Suc j)
      with "1.prems" have "Suc j < length ?rest" by (simp only: pc) simp
      from "1.IH" [OF False this] show ?thesis
        by (simp only: pc Suc nth_Cons_Suc) 
    qed
  qed
qed

lemma page_chunks_first:
  assumes "data \<noteq> []" "1 \<le> page_size"
  shows "hd (page_chunks address data page_size n_done) =
     (n_done, address, take (nat (page_size - address mod page_size)) data)"
  by (simp add: page_chunks_Cons [OF assms])

lemma page_chunks_cumulative:
  "i < length (page_chunks address data page_size n_done) \<Longrightarrow>
     fst (page_chunks address data page_size n_done ! i) =
       n_done + sum_list (map (\<lambda>c. length (snd (snd c)))
         (take i (page_chunks address data page_size n_done)))"
proof (induction i)
  case 0
  then have "data \<noteq> []" "1 \<le> page_size"
    by (auto simp: page_chunks.simps [of address data] split: if_splits)
  then show ?case by (simp add: page_chunks_Cons)
next
  case (Suc i)
  then have "i < length (page_chunks address data page_size n_done)" by simp
  with Suc page_chunks_consecutive [of i address data page_size n_done] show ?case
    by (simp add: take_Suc_conv_app_nth)
qed

text \<open>
  C10. For every address and page size, \<^verbatim>\<open>program\<close> with empty data returns normally
  without touching the transport: the only event it adds to the trace is one call of
  the progress callback, with done 0, total 0 and status \<open>None\<close>; it issues no write
  enable and no page program.
\<close>

theorem C10_program_empty_data:
  "\<exists>s'. program lower observer address [] page_size s = Some (Inr (), s') \<and>
     trace s' = trace s @ [Callback 0 0 None] \<and> dev s' = dev s \<and>
     jtag_calls (trace s') = jtag_calls (trace s) \<and>
     write_enables (trace s') = write_enables (trace s) \<and>
     page_programs (trace s') = page_programs (trace s)"
  by (subst program_def, subst program_loop.simps)
    (simp add: notify_def observer_def emit_def jtag_calls_def write_enables_def
      page_programs_def)

lemma program_flash:
  assumes "1 \<le> page_size"
    and "program lower callback address data page_size s = Some (Inr (), s')"
  shows "flash_events (trace s') = flash_events (trace s) @
     program_events callback (length data) (page_chunks address data page_size 0) @
     report_events (callback (length data) (length data) None)"
  using program_loop_flash [OF assms(2) [unfolded program_def]] assms(1)
  by simp

lemma program_page_programs:
  assumes "1 \<le> page_size"
    and "program lower callback address data page_size s = Some (r, s')"
  shows "\<exists>k. page_programs (trace s') = page_programs (trace s) @
     map snd (take k (page_chunks address data page_size 0))"
  using program_loop_page_programs [OF assms(2) [unfolded program_def]] assms(1)
  by simp

text \<open>
  C4. Let the page size be at least 1 and let \<^verbatim>\<open>program\<close> return, normally or with an
  error of a page program. Every page program it issued has a non-empty chunk that lies
  inside one page: the offset of its address in the page plus its length is at most the
  page size. When it returned normally the chunks are the data, in order and without
  gaps: the first starts at the address and has length
  \<open>min (len data) (page_size - address mod page_size)\<close>, every later one starts on a page
  boundary where the one before it ends, and every one between the first and the last
  is a full page.
\<close>

theorem C4_program_page_boundaries:
  assumes "1 \<le> page_size"
    and "program lower callback address data page_size s = Some (r, s')"
  shows "\<exists>calls. page_programs (trace s') = page_programs (trace s) @ calls \<and>
     (\<forall>(a, d) \<in> set calls. d \<noteq> [] \<and> a mod page_size + int (length d) \<le> page_size) \<and>
     (r = Inr () \<longrightarrow>
        concat (map snd calls) = data \<and>
        (data \<noteq> [] \<longrightarrow> fst (hd calls) = address \<and>
           length (snd (hd calls)) =
             min (length data) (nat (page_size - address mod page_size))) \<and>
        (\<forall>(a, d) \<in> set (tl calls). a mod page_size = 0) \<and>
        (\<forall>(a, d) \<in> set (butlast (tl calls)). int (length d) = page_size) \<and>
        (\<forall>i. Suc i < length calls \<longrightarrow>
           fst (calls ! Suc i) = fst (calls ! i) + int (length (snd (calls ! i)))))"
proof -
  let ?chunks = "page_chunks address data page_size 0"
  have within: "\<forall>(a, d) \<in> set (map snd (take k ?chunks)).
      d \<noteq> [] \<and> a mod page_size + int (length d) \<le> page_size" for k
    using page_chunks_within_page [of _ _ _ address data page_size 0]
    by (auto dest: in_set_takeD)
  show ?thesis
  proof (cases r)
    case (Inl e)
    from program_page_programs [OF assms] obtain k where
      "page_programs (trace s') = page_programs (trace s) @ map snd (take k ?chunks)"
      by blast
    with within [of k] Inl show ?thesis by blast
  next
    case (Inr u)
    with assms(2) have "program lower callback address data page_size s = Some (Inr (), s')"
      by simp
    from program_flash [OF assms(1) this]
    have "flash_events (trace s') = flash_events (trace s) @
          (program_events callback (length data) ?chunks @
          report_events (callback (length data) (length data) None))" by simp
    from page_programs_of_flash [OF this]
    have pp: "page_programs (trace s') = page_programs (trace s) @ map snd ?chunks"
      by (simp add: page_programs_program_events page_programs_append
          page_programs_report_events)
    have c1: "concat (map snd (map snd ?chunks)) = data"
      using concat_page_chunks [OF assms(1), of address data 0] by (simp add: comp_def)
    have c2: "fst (hd (map snd ?chunks)) = address \<and>
       length (snd (hd (map snd ?chunks))) =
         min (length data) (nat (page_size - address mod page_size))" if "data \<noteq> []"
      using page_chunks_Cons [OF that assms(1), of address 0] by simp
    have c3: "(\<forall>(a, d) \<in> set (tl (map snd ?chunks)). a mod page_size = 0) \<and>
        (\<forall>(a, d) \<in> set (butlast (tl (map snd ?chunks))). int (length d) = page_size)"
    proof (cases "data = []")
      case True
      then show ?thesis by (simp add: page_chunks_Nil)
    next
      case False
      from page_chunks_tail [OF False assms(1), of address 0] show ?thesis
        by (auto simp: map_tl [symmetric] map_butlast [symmetric])
    qed
    have c4: "fst (map snd ?chunks ! Suc i) =
        fst (map snd ?chunks ! i) + int (length (snd (map snd ?chunks ! i)))"
      if "Suc i < length (map snd ?chunks)" for i
      using that page_chunks_consecutive [of i address data page_size 0] by simp
    from within [of "length ?chunks"] pp c1 c2 c3 c4 show ?thesis
      by (intro exI [of _ "map snd ?chunks"]) (simp del: length_map)
  qed
qed

theorem C4_program_page_boundaries_witness:
  "(1::int) \<le> 4 \<and>
   (\<exists>s'. program idle_flash observer 0x1002 [1, 2, 3, 4, 5, 6, 7] 4 \<lparr>dev = (), trace = []\<rparr> =
       Some (Inr (), s') \<and>
     page_programs (trace s') = [(0x1002, [1, 2]), (0x1004, [3, 4, 5, 6]), (0x1008, [7])] \<and>
     (\<exists>calls. page_programs (trace s') = calls \<and> concat (map snd calls) = [1, 2, 3, 4, 5, 6, 7]))"
proof -
  let ?run = "program idle_flash observer 0x1002 [1, 2, 3, 4, 5, 6, 7] 4 \<lparr>dev = (), trace = []\<rparr>"
  have "?run \<noteq> None" by code_simp
  then obtain r s' where run: "?run = Some (r, s')" by auto
  have "fst (the ?run) = Inr ()" by code_simp
  with run have r: "r = Inr ()" by simp
  have "page_programs (trace (snd (the ?run))) =
      [(0x1002, [1, 2]), (0x1004, [3, 4, 5, 6]), (0x1008, [7])]" by code_simp
  with run have pp: "page_programs (trace s') =
      [(0x1002, [1, 2]), (0x1004, [3, 4, 5, 6]), (0x1008, [7])]" by simp
  from C4_program_page_boundaries [OF _ run] r
  obtain calls where "page_programs (trace s') = page_programs [] @ calls"
    and "concat (map snd calls) = [1, 2, 3, 4, 5, 6, 7]" by auto
  then have "\<exists>calls. page_programs (trace s') = calls \<and>
      concat (map snd calls) = [1, 2, 3, 4, 5, 6, 7]"
    by (simp add: page_programs_def)
  with run r pp show ?thesis by simp
qed

lemma program_events_observer:
  "program_events observer n_total chunks =
     concat (map (\<lambda>(n, a, d).
       [Callback n n_total (Some (Programming_page a)), Log_write_enable, Log_page_program a d])
       chunks)"
  by (induction chunks) (auto simp: program_events_def observer_def report_events_def)

text \<open>
  C8. Let the page size be at least 1 and let \<^verbatim>\<open>program\<close>, called with a callback that
  is observed, return normally. Its flash-level events are, for each chunk in turn, the
  callback with the bytes done before that chunk, the total \<open>len data\<close> and the status
  text of the page, then the write enable and the page program of the chunk; and after
  the last chunk exactly one more callback, with done and total both \<open>len data\<close> and
  status \<open>None\<close>. The bytes done before a chunk are the lengths of the chunks before it,
  and the chunks are the data.
\<close>

theorem C8_program_progress_callbacks:
  assumes "1 \<le> page_size"
    and "program lower observer address data page_size s = Some (Inr (), s')"
  shows "\<exists>chunks.
     flash_events (trace s') = flash_events (trace s) @
       concat (map (\<lambda>(n, a, d).
         [Callback n (length data) (Some (Programming_page a)),
          Log_write_enable, Log_page_program a d]) chunks) @
       [Callback (length data) (length data) None] \<and>
     callbacks (trace s') = callbacks (trace s) @
       map (\<lambda>(n, a, d). (n, length data, Some (Programming_page a))) chunks @
       [(length data, length data, None)] \<and>
     page_programs (trace s') = page_programs (trace s) @ map snd chunks \<and>
     concat (map (\<lambda>c. snd (snd c)) chunks) = data \<and>
     (\<forall>i < length chunks.
        fst (chunks ! i) = sum_list (map (\<lambda>c. length (snd (snd c))) (take i chunks)))"
proof -
  let ?chunks = "page_chunks address data page_size 0"
  from program_flash [OF assms]
  have fl: "flash_events (trace s') = flash_events (trace s) @
      (program_events observer (length data) ?chunks @
       report_events (observer (length data) (length data) None))" by simp
  have fin: "report_events (observer (length data) (length data) None) =
      [Callback (length data) (length data) None]"
    by (simp add: report_events_def observer_def)
  have c1: "flash_events (trace s') = flash_events (trace s) @
       concat (map (\<lambda>(n, a, d).
         [Callback n (length data) (Some (Programming_page a)),
          Log_write_enable, Log_page_program a d]) ?chunks) @
       [Callback (length data) (length data) None]"
    using fl by (simp only: fin program_events_observer)
  have c2: "callbacks (trace s') = callbacks (trace s) @
       map (\<lambda>(n, a, d). (n, length data, Some (Programming_page a))) ?chunks @
       [(length data, length data, None)]"
    using callbacks_of_flash [OF fl]
    by (simp add: callbacks_append callbacks_program_events_observer callbacks_report_events
        observer_def)
  have c3: "page_programs (trace s') = page_programs (trace s) @ map snd ?chunks"
    using page_programs_of_flash [OF fl]
    by (simp add: page_programs_append page_programs_program_events
        page_programs_report_events)
  have c4: "concat (map (\<lambda>c. snd (snd c)) ?chunks) = data"
    by (rule concat_page_chunks [OF assms(1)])
  have c5: "\<forall>i < length ?chunks.
        fst (?chunks ! i) = sum_list (map (\<lambda>c. length (snd (snd c))) (take i ?chunks))"
    using page_chunks_cumulative [of _ address data page_size 0] by simp
  from c1 c2 c3 c4 c5 show ?thesis by blast
qed

theorem C8_program_progress_callbacks_witness:
  "(1::int) \<le> 4 \<and>
   (\<exists>s'. program idle_flash observer 0x1002 [1, 2, 3, 4, 5, 6, 7] 4 \<lparr>dev = (), trace = []\<rparr> =
       Some (Inr (), s') \<and>
     callbacks (trace s') =
       [(0, 7, Some (Programming_page 0x1002)), (2, 7, Some (Programming_page 0x1004)),
        (6, 7, Some (Programming_page 0x1008)), (7, 7, None)] \<and>
     (\<exists>chunks :: (nat \<times> int \<times> byte list) list. callbacks (trace s') =
        map (\<lambda>(n, a, d). (n, 7, Some (Programming_page a))) chunks @ [(7, 7, None)]))"
proof -
  let ?run = "program idle_flash observer 0x1002 [1, 2, 3, 4, 5, 6, 7] 4 \<lparr>dev = (), trace = []\<rparr>"
  have "?run \<noteq> None" by code_simp
  then obtain r s' where run0: "?run = Some (r, s')" by auto
  have "fst (the ?run) = Inr ()" by code_simp
  with run0 have run: "?run = Some (Inr (), s')" by simp
  have "callbacks (trace (snd (the ?run))) =
       [(0, 7, Some (Programming_page 0x1002)), (2, 7, Some (Programming_page 0x1004)),
        (6, 7, Some (Programming_page 0x1008)), (7, 7, None)]" by code_simp
  with run have cb: "callbacks (trace s') =
       [(0, 7, Some (Programming_page 0x1002)), (2, 7, Some (Programming_page 0x1004)),
        (6, 7, Some (Programming_page 0x1008)), (7, 7, None)]" by simp
  have le: "(1::int) \<le> 4" by simp
  have len7: "length [1, 2, 3, 4, 5, 6, 7 :: byte] = 7" by simp
  have nil: "callbacks (trace \<lparr>dev = (), trace = []\<rparr>) = []" by (simp add: callbacks_def)
  from C8_program_progress_callbacks [OF le run]
  obtain chunks :: "(nat \<times> int \<times> byte list) list"
    where c: "callbacks (trace s') = callbacks (trace \<lparr>dev = (), trace = []\<rparr>) @
       map (\<lambda>(n, a, d). (n, length [1, 2, 3, 4, 5, 6, 7 :: byte], Some (Programming_page a))) chunks @
       [(length [1, 2, 3, 4, 5, 6, 7 :: byte], length [1, 2, 3, 4, 5, 6, 7 :: byte], None)]"
    by blast
  have "callbacks (trace s') =
        map (\<lambda>(n, a, d). (n, 7, Some (Programming_page a))) chunks @ [(7, 7, None)]"
    unfolding c len7 nil by (simp only: append_Nil)
  then have "\<exists>chunks :: (nat \<times> int \<times> byte list) list. callbacks (trace s') =
        map (\<lambda>(n, a, d). (n, 7, Some (Programming_page a))) chunks @ [(7, 7, None)]"
    by blast
  with run cb show ?thesis by simp
qed

section \<open>Verify\<close>

lemma first_differing_first:
  "length gold = length flash \<Longrightarrow> gold \<noteq> flash \<Longrightarrow>
     \<exists>i < length gold. (\<forall>j < i. gold ! j = flash ! j) \<and> gold ! i \<noteq> flash ! i \<and>
       first_differing k (zip gold flash) = Some (k + i, gold ! i, flash ! i)"
proof (induction gold flash arbitrary: k rule: list_induct2)
  case Nil
  then show ?case by simp
next
  case (Cons g gold f flash)
  show ?case
  proof (cases "g = f")
    case False
    then show ?thesis by (intro exI [of _ 0]) simp
  next
    case True
    with Cons.prems have "gold \<noteq> flash" by simp
    from Cons.IH [OF this, of "Suc k"]
    obtain i where i: "i < length gold" "\<forall>j < i. gold ! j = flash ! j" "gold ! i \<noteq> flash ! i"
      "first_differing (Suc k) (zip gold flash) = Some (Suc k + i, gold ! i, flash ! i)"
      by blast
    have "\<forall>j < Suc i. (g # gold) ! j = (f # flash) ! j"
      using True i(2) by (auto simp: nth_Cons split: nat.splits)
    with i True show ?thesis
      by (intro exI [of _ "Suc i"]) simp
  qed
qed

text \<open>
  C6, as stated, fails: the fault that \<^verbatim>\<open>verify\<close> raises reports neither the address nor
  the bytes. Two runs on an idle flash, which reads \<open>0x00\<close> everywhere, whose expected data
  first differ from the flash at different addresses and in different bytes (at
  \<open>0x2000\<close> with \<open>0x01\<close> expected, and at \<open>0x3000 + 1\<close> with \<open>0x02\<close> expected) raise the
  same fault, \<^verbatim>\<open>GlasgowAppletError("verify FAIL")\<close>. The address and the two bytes are in
  the error line logged before the fault is raised.
\<close>

theorem C6_verify_fault_counterexample:
  "interact_verify idle_flash 0x2000 [0x01, 0x00] \<lparr>dev = (), trace = []\<rparr> \<noteq> None \<and>
   interact_verify idle_flash 0x3000 [0x00, 0x02] \<lparr>dev = (), trace = []\<rparr> \<noteq> None \<and>
   fst (the (interact_verify idle_flash 0x2000 [0x01, 0x00] \<lparr>dev = (), trace = []\<rparr>)) =
     Inl (GlasgowAppletError ''verify FAIL'') \<and>
   fst (the (interact_verify idle_flash 0x3000 [0x00, 0x02] \<lparr>dev = (), trace = []\<rparr>)) =
     Inl (GlasgowAppletError ''verify FAIL'') \<and>
   flash_events (trace (snd (the
       (interact_verify idle_flash 0x2000 [0x01, 0x00] \<lparr>dev = (), trace = []\<rparr>)))) =
     [Log_read 0x2000 2, Log_first_differing 0x2000 0x01 0x00] \<and>
   flash_events (trace (snd (the
       (interact_verify idle_flash 0x3000 [0x00, 0x02] \<lparr>dev = (), trace = []\<rparr>)))) =
     [Log_read 0x3000 2, Log_first_differing 0x3001 0x02 0x00]"
  by code_simp

text \<open>
  C6, amended. For every base address and expected data, let the read of \<^verbatim>\<open>verify\<close>
  (as many bytes as the expected data, from the base address) return flash contents of
  the same length. When the two are equal byte for byte, \<^verbatim>\<open>verify\<close> returns normally
  after logging the pass. Otherwise it logs an error line with the absolute address
  \<open>base + offset\<close> of the first differing byte, the expected byte and the actual byte at
  that offset, and then raises the fault \<^verbatim>\<open>GlasgowAppletError("verify FAIL")\<close>, which
  itself carries none of them.
\<close>

theorem C6_verify_first_mismatch:
  assumes "read lower address (int (length gold_data)) None no_callback s =
      Some (Inr flash_data, s1)"
    and "length gold_data = length flash_data"
  shows "(gold_data = flash_data \<longrightarrow>
       interact_verify lower address gold_data s = Some (Inr (), emit [Log_verify_pass] s1)) \<and>
     (gold_data \<noteq> flash_data \<longrightarrow>
       (\<exists>i < length gold_data.
          (\<forall>j < i. gold_data ! j = flash_data ! j) \<and> gold_data ! i \<noteq> flash_data ! i \<and>
          interact_verify lower address gold_data s =
            Some (Inl (GlasgowAppletError ''verify FAIL''),
              emit [Log_first_differing (address + int i) (gold_data ! i) (flash_data ! i)] s1)))"
proof (intro conjI impI)
  assume "gold_data = flash_data"
  with assms(1) show
    "interact_verify lower address gold_data s = Some (Inr (), emit [Log_verify_pass] s1)"
    by (simp add: interact_verify_def bind_res_simps verify_compare_def)
next
  assume ne: "gold_data \<noteq> flash_data"
  from first_differing_first [OF assms(2) ne, of 0]
  obtain i where i: "i < length gold_data" "\<forall>j < i. gold_data ! j = flash_data ! j"
    "gold_data ! i \<noteq> flash_data ! i"
    "first_differing 0 (zip gold_data flash_data) = Some (i, gold_data ! i, flash_data ! i)"
    by auto
  from i(4) ne assms(1) have "interact_verify lower address gold_data s =
      Some (Inl (GlasgowAppletError ''verify FAIL''),
        emit [Log_first_differing (address + int i) (gold_data ! i) (flash_data ! i)] s1)"
    by (simp add: interact_verify_def bind_res_simps verify_compare_def)
  with i(1-3) show "\<exists>i < length gold_data.
          (\<forall>j < i. gold_data ! j = flash_data ! j) \<and> gold_data ! i \<noteq> flash_data ! i \<and>
          interact_verify lower address gold_data s =
            Some (Inl (GlasgowAppletError ''verify FAIL''),
              emit [Log_first_differing (address + int i) (gold_data ! i) (flash_data ! i)] s1)"
    by blast
qed

theorem C6_verify_first_mismatch_witness:
  "\<exists>s1. read idle_flash 0x2000 (int (length ((replicate 100 (0::byte)) [50 := 0xAB]))) None
       no_callback \<lparr>dev = (), trace = []\<rparr> = Some (Inr (replicate 100 0), s1) \<and>
     length ((replicate 100 (0::byte)) [50 := 0xAB]) = length (replicate 100 (0::byte)) \<and>
     interact_verify idle_flash 0x2000 ((replicate 100 0) [50 := 0xAB])
         \<lparr>dev = (), trace = []\<rparr> =
       Some (Inl (GlasgowAppletError ''verify FAIL''),
         emit [Log_first_differing (0x2000 + 50) 0xAB 0] s1) \<and>
     interact_verify idle_flash 0x2000 (replicate 100 0) \<lparr>dev = (), trace = []\<rparr> =
       Some (Inr (), emit [Log_verify_pass] s1)"
proof -
  let ?gold = "(replicate 100 (0::byte)) [50 := 0xAB]"
  let ?flash = "replicate 100 (0::byte)"
  let ?s = "\<lparr>dev = (), trace = []\<rparr> :: unit st"
  let ?read = "read idle_flash 0x2000 100 None no_callback ?s"
  have "?read \<noteq> None" by code_simp
  then obtain r s1 where rd0: "?read = Some (r, s1)" by auto
  have "fst (the ?read) = Inr ?flash" by code_simp
  with rd0 have rd: "?read = Some (Inr ?flash, s1)" by simp
  have len: "length ?gold = length ?flash" by simp
  have ne: "?gold \<noteq> ?flash"
  proof
    assume "?gold = ?flash"
    then have "?gold ! 50 = ?flash ! 50" by simp
    then show False by simp
  qed
  from rd have rd1: "read idle_flash 0x2000 (int (length ?gold)) None no_callback ?s =
      Some (Inr ?flash, s1)" by simp
  from rd have rd2: "read idle_flash 0x2000 (int (length ?flash)) None no_callback ?s =
      Some (Inr ?flash, s1)" by simp
  from C6_verify_first_mismatch [OF rd1 len] ne
  obtain i where i: "i < length ?gold" "\<forall>j < i. ?gold ! j = ?flash ! j" "?gold ! i \<noteq> ?flash ! i"
    and v: "interact_verify idle_flash 0x2000 ?gold ?s =
       Some (Inl (GlasgowAppletError ''verify FAIL''),
         emit [Log_first_differing (0x2000 + int i) (?gold ! i) (?flash ! i)] s1)"
    by blast
  from i(1,3) have "i = 50" by (cases "i = 50") (simp_all add: nth_list_update)
  with v have fail: "interact_verify idle_flash 0x2000 ?gold ?s =
     Some (Inl (GlasgowAppletError ''verify FAIL''),
       emit [Log_first_differing (0x2000 + 50) 0xAB 0] s1)"
    by simp
  from C6_verify_first_mismatch [OF rd2 refl]
  have pass: "interact_verify idle_flash 0x2000 ?flash ?s =
      Some (Inr (), emit [Log_verify_pass] s1)"
    by simp
  from rd1 len fail pass show ?thesis by blast
qed

section \<open>Block protect\<close>

lemma MSK_PROT_mask: "MSK_PROT = push_bit 2 (mask 4)"
  by (simp add: MSK_PROT_def mask_eq_exp_minus_1 push_bit_eq_mult)

lemma protect_bits_eq: "protect_bits status = take_bit 4 (drop_bit 2 status)"
  by (rule bit_eqI) (auto simp: protect_bits_def MSK_PROT_mask bit_simps)

lemma protect_bits_protect_status:
  "protect_bits (protect_status status b) = take_bit 4 b"
  by (rule bit_eqI) (auto simp: protect_bits_eq protect_status_def MSK_PROT_mask bit_simps)

lemma protect_status_frame:
  "protect_status status b AND NOT MSK_PROT = status AND NOT MSK_PROT"
  by (rule bit_eqI) (auto simp: protect_status_def MSK_PROT_mask bit_simps)

lemma protect_status_range:
  assumes "0 \<le> status" "status < 256"
  shows "0 \<le> protect_status status b \<and> protect_status status b < 256"
proof -
  from assms have st: "take_bit 8 status = status" by (simp add: take_bit_int_eq_self)
  have "take_bit 8 (protect_status status b) = protect_status status b"
    by (rule bit_eqI) (use st in \<open>auto simp: protect_status_def MSK_PROT_mask bit_simps
        dest: bit_take_bit_iff [THEN iffD1, of 8 status, unfolded st]\<close>)
  moreover have "0 \<le> take_bit 8 (protect_status status b)" by simp
  moreover have "take_bit 8 (protect_status status b) < 2 ^ 8" by (rule take_bit_int_less_exp)
  ultimately show ?thesis by simp
qed


text \<open>
  C9. For every 4-bit value \<open>b\<close> and every status \<open>st\<close> that the status read at the start
  of the set operation returns: after that read the operation sends to the transport the
  write enable (opcode \<open>0x06\<close>) and then the write status (opcode \<open>0x01\<close>) with the one
  byte \<open>protect_status st b\<close>, followed only by the status reads of the wait for the
  write; the byte written has \<open>b\<close> in its protect field (bits 2 to 5) and the bits of \<open>st\<close>
  everywhere else. A block-protect query run next on the same transport, whose status
  read returns the byte that was written, logs exactly \<open>b\<close>.
\<close>

theorem C9_block_protect_set_query:
  assumes "0 \<le> b" and "b < 16"
    and "read_status lower s = (Inr st, s1)"
    and "interact_protect lower (Some b) s = Some (r, s')"
    and "read_status lower s' = (Inr (protect_status st b), t1)"
  shows "(\<exists>polls. 0 < polls \<and>
        jtag_calls (trace s') = jtag_calls (trace s) @
          command_calls 0x05 [] 0 1 @
          command_calls 0x06 [] 0 0 @
          command_calls 0x01 [word_of_int (protect_status st b)] 0 0 @
          concat (replicate polls (command_calls 0x05 [] 0 1))) \<and>
     uint (word_of_int (protect_status st b) :: byte) = protect_status st b \<and>
     flash_events (trace s') =
       flash_events (trace s) @ [Log_write_enable, Log_write_status (protect_status st b)] \<and>
     protect_bits (protect_status st b) = b \<and>
     protect_status st b AND NOT MSK_PROT = st AND NOT MSK_PROT \<and>
     interact_protect lower None s' = Some (Inr (), emit [Log_protect_bits b] t1)"
proof -
  from read_status_Inr [OF assms(3)]
  have hex: "has_hex lower" and st: "0 \<le> st" "st < 256" by simp_all
  from assms(1,2) have b: "take_bit 4 b = b" by (simp add: take_bit_int_eq_self)
  have pb: "protect_bits (protect_status st b) = b"
    by (simp add: protect_bits_protect_status b)
  from protect_status_range [OF st, of b]
  have lo: "0 \<le> protect_status st b" and hi: "protect_status st b < 256" by simp_all
  obtain s2 where we: "write_enable lower s1 = (Inr (), s2)"
    using write_enable_Inr [OF hex] by blast
  from assms(3,4) we have ws: "write_status lower (protect_status st b) s2 = Some (r, s')"
    by (simp add: interact_protect_def bind_res_simps)
  from write_status_jtag [OF hex lo hi ws]
  obtain k where k: "0 < k" "jtag_calls (trace s') =
     jtag_calls (trace s2) @ command_calls 0x01 [word_of_int (protect_status st b)] 0 0 @
     concat (replicate k (command_calls 0x05 [] 0 1))" by blast
  have "jtag_calls (trace s') = jtag_calls (trace s) @
          command_calls 0x05 [] 0 1 @
          command_calls 0x06 [] 0 0 @
          command_calls 0x01 [word_of_int (protect_status st b)] 0 0 @
          concat (replicate k (command_calls 0x05 [] 0 1))"
    using k(2) write_enable_jtag [OF we] read_status_jtag [OF assms(3)] by simp
  with k(1) have c1: "\<exists>polls. 0 < polls \<and>
        jtag_calls (trace s') = jtag_calls (trace s) @
          command_calls 0x05 [] 0 1 @
          command_calls 0x06 [] 0 0 @
          command_calls 0x01 [word_of_int (protect_status st b)] 0 0 @
          concat (replicate polls (command_calls 0x05 [] 0 1))" by blast
  have c2: "uint (word_of_int (protect_status st b) :: byte) = protect_status st b"
    using lo hi by (simp add: uint_word_of_int_eq take_bit_int_eq_self)
  have c3: "flash_events (trace s') =
       flash_events (trace s) @ [Log_write_enable, Log_write_status (protect_status st b)]"
    using write_status_flash [OF ws] write_enable_flash [OF we] read_status_flash [OF assms(3)]
    by simp
  have c6: "interact_protect lower None s' = Some (Inr (), emit [Log_protect_bits b] t1)"
    using assms(5) by (simp add: interact_protect_def bind_res_simps pb)
  from c1 c2 c3 pb protect_status_frame [of st b] c6 show ?thesis by blast
qed

theorem C9_block_protect_set_query_witness:
  "(0::int) \<le> 10 \<and> (10::int) < 16 \<and>
   fst (read_status scripted
     \<lparr>dev = [[], frombytes [0x44], [], [], [], [], [], [], [], frombytes [0x68]], trace = []\<rparr>) =
     Inr 0x44 \<and>
   protect_status 0x44 10 = 0x68 \<and>
   (\<exists>s' t1. interact_protect scripted (Some 10)
       \<lparr>dev = [[], frombytes [0x44], [], [], [], [], [], [], [], frombytes [0x68]], trace = []\<rparr> =
       Some (Inr (), s') \<and>
     read_status scripted s' = (Inr 0x68, t1) \<and>
     jtag_calls (trace s') =
       command_calls 0x05 [] 0 1 @ command_calls 0x06 [] 0 0 @ command_calls 0x01 [0x68] 0 0 @
       command_calls 0x05 [] 0 1 \<and>
     interact_protect scripted None s' = Some (Inr (), emit [Log_protect_bits 10] t1))"
proof -
  let ?s = "\<lparr>dev = [[], frombytes [0x44 :: byte], [], [], [], [], [], [], [],
     frombytes [0x68 :: byte]], trace = []\<rparr>"
  let ?set = "interact_protect scripted (Some 10) ?s"
  have ps: "protect_status 0x44 10 = 0x68" by code_simp
  have r1: "fst (read_status scripted ?s) = Inr 0x44" by code_simp
  then have h3: "read_status scripted ?s = (Inr 0x44, snd (read_status scripted ?s))"
    by (metis prod.collapse)
  have "?set \<noteq> None" by code_simp
  then obtain r s' where h4: "?set = Some (r, s')" by auto
  have "fst (the ?set) = Inr ()" by code_simp
  with h4 have r: "r = Inr ()" by simp
  have "fst (read_status scripted (snd (the ?set))) = Inr 0x68" by code_simp
  with h4 have "fst (read_status scripted s') = Inr 0x68" by simp
  then have h5: "read_status scripted s' =
      (Inr (protect_status 0x44 10), snd (read_status scripted s'))"
    by (metis prod.collapse ps)
  have "jtag_calls (trace (snd (the ?set))) =
       command_calls 0x05 [] 0 1 @ command_calls 0x06 [] 0 0 @ command_calls 0x01 [0x68] 0 0 @
       command_calls 0x05 [] 0 1" by code_simp
  with h4 have j: "jtag_calls (trace s') =
       command_calls 0x05 [] 0 1 @ command_calls 0x06 [] 0 0 @ command_calls 0x01 [0x68] 0 0 @
       command_calls 0x05 [] 0 1" by simp
  from C9_block_protect_set_query [OF _ _ h3 h4 h5]
  have "interact_protect scripted None s' =
         Some (Inr (), emit [Log_protect_bits 10] (snd (read_status scripted s')))"
    by simp
  with ps r1 h4 r h5 j show ?thesis by auto
qed

section \<open>Erase and program\<close>

lemma sector_start_pow2:
  "(address :: int) AND NOT (2 ^ k - 1) = address - address mod 2 ^ k"
proof -
  have "address AND NOT (mask k) = push_bit k (drop_bit k address)"
    by (rule bit_eqI) (auto simp: bit_simps)
  also have "\<dots> = address - address mod 2 ^ k"
    by (simp add: push_bit_eq_mult drop_bit_eq_div minus_mod_eq_div_mult)
  finally show ?thesis by (simp add: mask_eq_exp_minus_1)
qed

lemma set_slice_splice:
  assumes "0 \<le> i"
  shows "set_slice xs i (i + int (length ys)) ys =
     take (nat i) xs @ ys @ drop (nat i + length ys) xs"
proof -
  from assms have lo: "slice_index (length xs) i = min (nat i) (length xs)"
    by (simp add: slice_index_def)
  from assms have hi: "slice_index (length xs) (i + int (length ys)) =
      min (nat i + length ys) (length xs)"
    by (simp add: slice_index_def nat_add_distrib)
  show ?thesis
    by (simp add: set_slice_def lo hi Let_def) (auto simp: min_def max_def)
qed

lemma length_splice:
  assumes "nat i + length ys \<le> length xs"
  shows "length (take (nat i) xs @ ys @ drop (nat i + length ys) xs) = length xs"
  using assms by simp

lemma read_command_loop_length:
  assumes "read_command_loop lower address len chunk_size cmd dummy callback data s = Some y"
  shows "full_duplex lower \<longrightarrow> (\<forall>d. fst y = Inr d \<longrightarrow> length d = max (length data) (nat len))"
proof (rule read_command_loop.raw_induct
    [where P = "\<lambda>lower address len chunk_size cmd dummy callback data s y.
      full_duplex lower \<longrightarrow> (\<forall>d. fst y = Inr d \<longrightarrow> length d = max (length data) (nat len))",
      OF _ assms], goal_cases)
  case (1 loop lower address len chunk_size cmd dummy callback data s y)
  show ?case
  proof (intro impI allI)
    fix d
    assume fd: "full_duplex lower" and d: "fst y = Inr d"
    show "length d = max (length data) (nat len)"
    proof (cases "len > int (length data)")
      case False
      with 1(2) d show ?thesis by auto
    next
      case True
      let ?s0 = "notify callback (length data) (nat len) (Some (Reading_address address)) s"
      let ?ret = "nat (min chunk_size (len - int (length data)))"
      obtain r1 s1 where c0: "command lower cmd (format_addr address) dummy ?ret ?s0 = (r1, s1)"
        by (cases "command lower cmd (format_addr address) dummy ?ret ?s0")
      from 1(2) True c0 d obtain chunk where r1: "r1 = Inr chunk"
        by (cases r1) (auto simp: Let_def bind_res_simps)
      from c0 r1 have c: "command lower cmd (format_addr address) dummy ?ret ?s0 = (Inr chunk, s1)"
        by simp
      from command_length [OF fd c] have lc: "length chunk = ?ret" .
      from 1(2) True c have rec: "loop lower (address + int (length chunk)) len chunk_size
          cmd dummy callback (data @ chunk) s1 = Some y"
        by (simp add: Let_def bind_res_simps)
      from 1(1) [OF rec] fd d have "length d = max (length (data @ chunk)) (nat len)" by simp
      moreover from lc True have "length (data @ chunk) \<le> nat len" by simp
      ultimately show ?thesis using True by simp
    qed
  qed
qed

lemma read_length:
  assumes "full_duplex lower"
    and "read lower address len chunk_size callback s = Some (Inr d, s')"
  shows "length d = nat len"
  using read_command_loop_length [OF assms(2) [unfolded read_def read_command_def Let_def]] assms(1)
  by simp

lemma read_command_loop_flash_aux:
  assumes "read_command_loop lower address len chunk_size cmd dummy callback data s = Some y"
  shows "callback = no_callback \<longrightarrow> flash_events (trace (snd y)) = flash_events (trace s)"
proof (rule read_command_loop.raw_induct
    [where P = "\<lambda>lower address len chunk_size cmd dummy callback data s y.
      callback = no_callback \<longrightarrow> flash_events (trace (snd y)) = flash_events (trace s)",
      OF _ assms], goal_cases)
  case (1 loop lower address len chunk_size cmd dummy callback data s y)
  show ?case
  proof (intro impI)
    assume cb: "callback = no_callback"
    show "flash_events (trace (snd y)) = flash_events (trace s)"
    proof (cases "len > int (length data)")
      case False
      with 1(2) show ?thesis by auto
    next
      case True
      let ?s0 = "notify callback (length data) (nat len) (Some (Reading_address address)) s"
      let ?ret = "nat (min chunk_size (len - int (length data)))"
      have s0: "flash_events (trace ?s0) = flash_events (trace s)"
        by (simp add: cb notify_flash no_callback_def report_events_def)
      obtain r1 s1 where c: "command lower cmd (format_addr address) dummy ?ret ?s0 = (r1, s1)"
        by (cases "command lower cmd (format_addr address) dummy ?ret ?s0")
      show ?thesis
      proof (cases r1)
        case (Inl e)
        with 1(2) True c have "snd y = s1" by (auto simp: Let_def bind_res_simps)
        with command_flash [OF c] s0 show ?thesis by simp
      next
        case (Inr chunk)
        with 1(2) True c have rec: "loop lower (address + int (length chunk)) len chunk_size
            cmd dummy callback (data @ chunk) s1 = Some y"
          by (simp add: Let_def bind_res_simps)
        from 1(1) [OF rec] cb command_flash [OF c] s0 show ?thesis by simp
      qed
    qed
  qed
qed

lemma read_command_loop_flash:
  assumes "read_command_loop lower address len chunk_size cmd dummy no_callback data s = Some y"
  shows "flash_events (trace (snd y)) = flash_events (trace s)"
  using read_command_loop_flash_aux [OF assms] by simp

lemma read_flash:
  assumes "read lower address len chunk_size no_callback s = Some (r, s')"
  shows "flash_events (trace s') = flash_events (trace s) @ [Log_read address len]"
  using read_command_loop_flash [OF assms [unfolded read_def read_command_def Let_def]]
  by (simp add: emit_def flash_events_def flash_level_def)

text \<open>
  C3, as stated, fails for a sector size that is not a power of two: with sector size 3
  and address 4 the erased address is \<open>4 AND NOT 2 = 4\<close>, not \<open>4 - 4 mod 3 = 3\<close>.
\<close>

theorem C3_sector_start_counterexample:
  "erase_program idle_flash observer 4 [0x00] 3 3 \<lparr>dev = (), trace = []\<rparr> \<noteq> None \<and>
   sector_erases (trace (snd (the
     (erase_program idle_flash observer 4 [0x00] 3 3 \<lparr>dev = (), trace = []\<rparr>)))) = [4] \<and>
   (4 :: int) - 4 mod 3 = 3"
  by code_simp

lemma match_ff_iff:
  "match_ff xs \<longleftrightarrow>
     (\<forall>b \<in> set xs. b = 0xff) \<or> (\<exists>ys. xs = ys @ [0x0a] \<and> (\<forall>b \<in> set ys. b = 0xff))"
proof -
  have split: "xs = takeWhile (\<lambda>b. b = 0xff) xs @ dropWhile (\<lambda>b. b = 0xff) xs" by simp
  have tw: "\<forall>b \<in> set (takeWhile (\<lambda>b. b = 0xff) xs). b = 0xff"
    by (auto dest: set_takeWhileD)
  show ?thesis
  proof
    assume "match_ff xs"
    then consider "dropWhile (\<lambda>b. b = 0xff) xs = []" | "dropWhile (\<lambda>b. b = 0xff) xs = [0x0a]"
      by (auto simp: match_ff_def Let_def)
    then show "(\<forall>b \<in> set xs. b = 0xff) \<or> (\<exists>ys. xs = ys @ [0x0a] \<and> (\<forall>b \<in> set ys. b = 0xff))"
    proof cases
      case 1
      then show ?thesis by (simp add: dropWhile_eq_Nil_conv)
    next
      case 2
      with split tw show ?thesis by metis
    qed
  next
    assume "(\<forall>b \<in> set xs. b = 0xff) \<or> (\<exists>ys. xs = ys @ [0x0a] \<and> (\<forall>b \<in> set ys. b = 0xff))"
    then show "match_ff xs"
    proof
      assume "\<forall>b \<in> set xs. b = 0xff"
      then show ?thesis by (simp add: match_ff_def Let_def dropWhile_eq_Nil_conv)
    next
      assume "\<exists>ys. xs = ys @ [0x0a] \<and> (\<forall>b \<in> set ys. b = 0xff)"
      then obtain ys where "xs = ys @ [0x0a]" "\<forall>b \<in> set ys. b = 0xff" by blast
      then show ?thesis by (simp add: match_ff_def Let_def dropWhile_append2)
    qed
  qed
qed

text \<open>
  C2. The code at the input \<^verbatim>\<open>erase_program(0, b"\xff\xff\xff\n", 4, 4)\<close> on a flash that
  reads idle: the run returns normally, erases sector 0 once and issues no page program,
  although the sector image is not all \<open>0xFF\<close>: its last byte is \<open>0x0A\<close>, and the
  \<^verbatim>\<open>re.match\<close> test accepts it.
\<close>

theorem C2_erase_program_skips_line_feed_image:
  "erase_program idle_flash observer 0 [0xff, 0xff, 0xff, 0x0a] 4 4 \<lparr>dev = (), trace = []\<rparr> \<noteq> None \<and>
   fst (the (erase_program idle_flash observer 0 [0xff, 0xff, 0xff, 0x0a] 4 4
     \<lparr>dev = (), trace = []\<rparr>)) = Inr () \<and>
   sector_erases (trace (snd (the (erase_program idle_flash observer 0 [0xff, 0xff, 0xff, 0x0a] 4 4
     \<lparr>dev = (), trace = []\<rparr>)))) = [0] \<and>
   page_programs (trace (snd (the (erase_program idle_flash observer 0 [0xff, 0xff, 0xff, 0x0a] 4 4
     \<lparr>dev = (), trace = []\<rparr>)))) = [] \<and>
   match_ff [0xff, 0xff, 0xff, 0x0a] \<and>
   [0xff, 0xff, 0xff, 0x0a] \<noteq> replicate 4 (0xff :: byte)"
  by code_simp

subsection \<open>The sector erases of a whole run\<close>

lemma sector_erases_report_events: "sector_erases (report_events rs) = []"
  by (induction rs) (auto simp: sector_erases_def report_events_def)

lemma notify_sector_erases:
  "sector_erases (trace (notify callback n t x s)) = sector_erases (trace s)"
  by (simp add: notify_eq emit_def sector_erases_append sector_erases_report_events)

lemma write_enable_sector_erases:
  assumes "write_enable lower s = (r, s')"
  shows "sector_erases (trace s') = sector_erases (trace s)"
  using sector_erases_of_flash [OF write_enable_flash [OF assms]] by (simp add: sector_erases_def)

lemma page_program_sector_erases:
  assumes "page_program lower address data s = Some (r, s')"
  shows "sector_erases (trace s') = sector_erases (trace s)"
  using sector_erases_of_flash [OF page_program_flash [OF assms]] by (simp add: sector_erases_def)

lemma sector_erase_sector_erases:
  assumes "sector_erase lower address s = Some (r, s')"
  shows "sector_erases (trace s') = sector_erases (trace s) @ [address]"
  using sector_erases_of_flash [OF sector_erase_flash [OF assms]] by (simp add: sector_erases_def)

lemma read_sector_erases:
  assumes "read lower address len chunk_size no_callback s = Some (r, s')"
  shows "sector_erases (trace s') = sector_erases (trace s)"
  using sector_erases_of_flash [OF read_flash [OF assms]] by (simp add: sector_erases_def)

lemma program_loop_sector_erases:
  assumes "program_loop lower callback address data page_size n_done n_total s = Some y"
  shows "sector_erases (trace (snd y)) = sector_erases (trace s)"
proof (rule program_loop.raw_induct
    [where P = "\<lambda>lower callback address data page_size n_done n_total s y.
      sector_erases (trace (snd y)) = sector_erases (trace s)", OF _ assms], goal_cases)
  case (1 loop lower callback address data page_size n_done n_total s y)
  show ?case
  proof (cases "data = [] \<or> page_size = 0")
    case True
    with 1(2) show ?thesis by (cases "data = []") (auto simp: notify_sector_erases)
  next
    case False
    define chunk where "chunk = slice_to data (page_size - address mod page_size)"
    define s0 where "s0 = notify callback n_done n_total (Some (Programming_page address)) s"
    obtain r1 s1 where we: "write_enable lower s0 = (r1, s1)"
      by (cases "write_enable lower s0")
    have e1: "sector_erases (trace s1) = sector_erases (trace s0)"
      by (rule write_enable_sector_erases [OF we])
    have e0: "sector_erases (trace s0) = sector_erases (trace s)"
      by (simp add: s0_def notify_sector_erases)
    from False 1(2) have body0:
      "bind_res (Some (r1, s1)) (\<lambda>u s.
         bind_res (page_program lower address chunk s) (\<lambda>u s.
           loop lower callback (address + int (length chunk)) (drop (length chunk) data)
             page_size (n_done + length chunk) n_total s)) = Some y"
      by (simp add: Let_def chunk_def [symmetric] s0_def [symmetric] we)
    show ?thesis
    proof (cases r1)
      case (Inl e)
      with body0 have "snd y = s1" by (auto simp: bind_res_simps)
      with e0 e1 show ?thesis by simp
    next
      case (Inr u0)
      with body0 have body:
        "bind_res (page_program lower address chunk s1) (\<lambda>u s.
           loop lower callback (address + int (length chunk)) (drop (length chunk) data)
             page_size (n_done + length chunk) n_total s) = Some y"
        by (simp add: bind_res_simps)
      obtain r s' where y: "y = (r, s')" by (cases y)
      from body [unfolded y bind_res_Some_iff] show ?thesis
      proof (elim disjE exE conjE)
        fix e
        assume "page_program lower address chunk s1 = Some (Inl e, s')"
        from page_program_sector_erases [OF this] e0 e1 show ?thesis by (simp add: y)
      next
        fix u s2
        assume pp: "page_program lower address chunk s1 = Some (Inr u, s2)"
          and rec: "loop lower callback (address + int (length chunk)) (drop (length chunk) data)
             page_size (n_done + length chunk) n_total s2 = Some (r, s')"
        from 1(1) [OF rec] page_program_sector_erases [OF pp] e0 e1 show ?thesis
          by (simp add: y)
      qed
    qed
  qed
qed

lemma program_sector_erases:
  assumes "program lower callback address data page_size s = Some (r, s')"
  shows "sector_erases (trace s') = sector_erases (trace s)"
  using program_loop_sector_erases [OF assms [unfolded program_def]] by simp

text \<open>
  C3, amended. Let the sector size be a power of two and let a turn of the loop of
  \<^verbatim>\<open>erase_program\<close>, in a run that returns normally, start at \<open>address\<close> with data left.
  Its chunk is the data up to the end of the sector that contains \<open>address\<close>. The sector
  it erases starts at \<open>address - address mod sector_size\<close>, a multiple of the sector size,
  and the chunk lies inside that sector. When the chunk is a whole sector that starts on
  a sector boundary the image is the chunk and nothing is read; otherwise the whole
  sector is read back first and the image is what was read with the chunk spliced in at
  offset \<open>address mod sector_size\<close> (a full sector again on a full-duplex transport).
  After the read come the callback, the write enable and the erase of the sector, the
  only sector erase of the turn. Then \<^verbatim>\<open>program\<close> writes the image at the start of the
  sector, unless the image passes the \<^verbatim>\<open>re.match\<close> test: then nothing more is done for
  the chunk. The loop goes on after the chunk from the state so reached.
\<close>

theorem C3_erase_program_chunk:
  assumes "sector_size = 2 ^ k" and "data \<noteq> []"
    and "erase_program_loop lower callback address data sector_size page_size n_done n_total s =
       Some (Inr (), s')"
  shows "\<exists>chunk image s1 s2 s3 s4.
     chunk = take (nat (sector_size - address mod sector_size)) data \<and> chunk \<noteq> [] \<and>
     (address - address mod sector_size) mod sector_size = 0 \<and>
     address - address mod sector_size \<le> address \<and>
     address + int (length chunk) \<le> address - address mod sector_size + sector_size \<and>
     (if address mod sector_size = 0 \<and> int (length chunk) = sector_size
      then image = chunk \<and> s1 = s
      else \<exists>existing.
        read lower (address - address mod sector_size) sector_size None no_callback s =
          Some (Inr existing, s1) \<and>
        image = take (nat (address mod sector_size)) existing @ chunk @
          drop (nat (address mod sector_size) + length chunk) existing \<and>
        (full_duplex lower \<longrightarrow> int (length existing) = sector_size \<and>
           int (length image) = sector_size)) \<and>
     write_enable lower
       (notify callback n_done n_total
          (Some (Erasing_sector (address - address mod sector_size))) s1) = (Inr (), s2) \<and>
     sector_erase lower (address - address mod sector_size) s2 = Some (Inr (), s3) \<and>
     (if match_ff image then s4 = s3
      else program lower
          (\<lambda>page_done page_total status. callback (n_done + page_done) n_total status)
          (address - address mod sector_size) image page_size s3 = Some (Inr (), s4)) \<and>
     sector_erases (trace s4) = sector_erases (trace s) @ [address - address mod sector_size] \<and>
     erase_program_loop lower callback (address + int (length chunk)) (drop (length chunk) data)
       sector_size page_size (n_done + length chunk) n_total s4 = Some (Inr (), s')"
proof -
  define off where "off = address mod sector_size"
  define base where "base = address - off"
  define chunk where "chunk = take (nat (sector_size - off)) data"
  from assms(1) have pos: "0 < sector_size" by simp
  then have off_lt: "off < sector_size" and off_ge: "0 \<le> off"
    by (simp_all add: off_def)
  from off_lt have sl: "slice_to data (sector_size - off) = chunk"
    by (simp add: slice_to_pos chunk_def)
  have start: "address AND NOT (sector_size - 1) = base"
    by (simp add: assms(1) sector_start_pow2 base_def off_def)
  from off_lt assms(2) have chunk_ne: "chunk \<noteq> []"
    by (cases data) (auto simp: chunk_def)
  have len_chunk: "int (length chunk) \<le> sector_size - off"
    using off_lt by (simp add: chunk_def)
  have base_mod: "base mod sector_size = 0"
    by (simp add: base_def off_def minus_mod_eq_mult_div)
  let ?image_read = "bind_res (read lower base sector_size None no_callback s)
      (\<lambda>sector_data s. Some (Inr (set_slice sector_data off (off + int (length chunk)) chunk), s))"
  let ?image = "if off = 0 \<and> int (length chunk) = sector_size then Some (Inr chunk, s)
      else ?image_read"
  let ?cb = "\<lambda>page_done page_total status. callback (n_done + page_done) n_total status"
  have unfold: "erase_program_loop lower callback address data sector_size page_size
      n_done n_total s =
    bind_res ?image (\<lambda>sector_data s.
      bind_res (Some (write_enable lower
          (notify callback n_done n_total (Some (Erasing_sector base)) s))) (\<lambda>u s.
      bind_res (sector_erase lower base s) (\<lambda>u s.
      bind_res (if \<not> match_ff sector_data
                then program lower ?cb base sector_data page_size s
                else Some (Inr (), s)) (\<lambda>u s.
      erase_program_loop lower callback (address + int (length chunk)) (drop (length chunk) data)
        sector_size page_size (n_done + length chunk) n_total s))))"
    using assms(2) pos
    by (subst erase_program_loop.simps)
      (simp add: sl start Let_def off_def [symmetric] cong: if_cong)
  from assms(3) have body: "bind_res ?image (\<lambda>sector_data s.
      bind_res (Some (write_enable lower
          (notify callback n_done n_total (Some (Erasing_sector base)) s))) (\<lambda>u s.
      bind_res (sector_erase lower base s) (\<lambda>u s.
      bind_res (if \<not> match_ff sector_data
                then program lower ?cb base sector_data page_size s
                else Some (Inr (), s)) (\<lambda>u s.
      erase_program_loop lower callback (address + int (length chunk)) (drop (length chunk) data)
        sector_size page_size (n_done + length chunk) n_total s)))) = Some (Inr (), s')"
    by (simp only: unfold)
  then obtain image s1 where im: "?image = Some (Inr image, s1)"
    and rest1: "bind_res (Some (write_enable lower
          (notify callback n_done n_total (Some (Erasing_sector base)) s1))) (\<lambda>u s.
      bind_res (sector_erase lower base s) (\<lambda>u s.
      bind_res (if \<not> match_ff image
                then program lower ?cb base image page_size s
                else Some (Inr (), s)) (\<lambda>u s.
      erase_program_loop lower callback (address + int (length chunk)) (drop (length chunk) data)
        sector_size page_size (n_done + length chunk) n_total s))) = Some (Inr (), s')"
    unfolding bind_res_Inr_iff by blast
  from rest1 obtain s2 where we: "write_enable lower
          (notify callback n_done n_total (Some (Erasing_sector base)) s1) = (Inr (), s2)"
    and rest2: "bind_res (sector_erase lower base s2) (\<lambda>u s.
      bind_res (if \<not> match_ff image
                then program lower ?cb base image page_size s
                else Some (Inr (), s)) (\<lambda>u s.
      erase_program_loop lower callback (address + int (length chunk)) (drop (length chunk) data)
        sector_size page_size (n_done + length chunk) n_total s)) = Some (Inr (), s')"
    unfolding bind_res_Inr_iff by auto
  from rest2 obtain s3 where se: "sector_erase lower base s2 = Some (Inr (), s3)"
    and rest3: "bind_res (if \<not> match_ff image
                then program lower ?cb base image page_size s3
                else Some (Inr (), s3)) (\<lambda>u s.
      erase_program_loop lower callback (address + int (length chunk)) (drop (length chunk) data)
        sector_size page_size (n_done + length chunk) n_total s) = Some (Inr (), s')"
    unfolding bind_res_Inr_iff by auto
  from rest3 obtain s4 where pr: "(if \<not> match_ff image
                then program lower ?cb base image page_size s3
                else Some (Inr (), s3)) = Some (Inr (), s4)"
    and rest4: "erase_program_loop lower callback (address + int (length chunk))
        (drop (length chunk) data) sector_size page_size (n_done + length chunk) n_total s4 =
        Some (Inr (), s')"
    unfolding bind_res_Inr_iff by auto
  have image: "if off = 0 \<and> int (length chunk) = sector_size
      then image = chunk \<and> s1 = s
      else \<exists>existing.
        read lower base sector_size None no_callback s = Some (Inr existing, s1) \<and>
        image = take (nat off) existing @ chunk @ drop (nat off + length chunk) existing \<and>
        (full_duplex lower \<longrightarrow> int (length existing) = sector_size \<and>
           int (length image) = sector_size)"
  proof (cases "off = 0 \<and> int (length chunk) = sector_size")
    case True
    with im show ?thesis by simp
  next
    case False
    with im have "?image_read = Some (Inr image, s1)" by simp
    then obtain existing where rd: "read lower base sector_size None no_callback s =
        Some (Inr existing, s1)"
      and i: "image = set_slice existing off (off + int (length chunk)) chunk"
      unfolding bind_res_Inr_iff by auto
    from i have i': "image = take (nat off) existing @ chunk @
        drop (nat off + length chunk) existing"
      by (simp add: set_slice_splice [OF off_ge])
    have "int (length existing) = sector_size \<and> int (length image) = sector_size"
      if fd: "full_duplex lower"
    proof -
      from read_length [OF fd rd] pos have le: "int (length existing) = sector_size" by simp
      with len_chunk off_ge have "nat off + length chunk \<le> length existing" by linarith
      from length_splice [OF this] le show ?thesis by (simp only: i')
    qed
    with rd i' False show ?thesis by auto
  qed
  have e1: "sector_erases (trace s1) = sector_erases (trace s)"
  proof (cases "off = 0 \<and> int (length chunk) = sector_size")
    case True
    with im show ?thesis by simp
  next
    case False
    with im have "?image_read = Some (Inr image, s1)" by simp
    then obtain existing where
      "read lower base sector_size None no_callback s = Some (Inr existing, s1)"
      unfolding bind_res_Inr_iff by auto
    from read_sector_erases [OF this] show ?thesis .
  qed
  have e2: "sector_erases (trace s2) = sector_erases (trace s1)"
    using write_enable_sector_erases [OF we] by (simp add: notify_sector_erases)
  have e3: "sector_erases (trace s3) = sector_erases (trace s2) @ [base]"
    by (rule sector_erase_sector_erases [OF se])
  have prog: "if match_ff image then s4 = s3
      else program lower ?cb base image page_size s3 = Some (Inr (), s4)"
    using pr by (cases "match_ff image") simp_all
  have e4: "sector_erases (trace s4) = sector_erases (trace s3)"
  proof (cases "match_ff image")
    case True
    with prog show ?thesis by simp
  next
    case False
    with prog have "program lower ?cb base image page_size s3 = Some (Inr (), s4)" by simp
    from program_sector_erases [OF this] show ?thesis .
  qed
  have erases: "sector_erases (trace s4) = sector_erases (trace s) @ [base]"
    by (simp add: e4 e3 e2 e1)
  have g1: "base mod sector_size = 0" by (rule base_mod)
  have g2: "base \<le> address" using off_ge by (simp add: base_def)
  have g3: "address + int (length chunk) \<le> base + sector_size"
    using len_chunk by (simp add: base_def)
  have c0: "chunk = take (nat (sector_size - off)) data" by (rule chunk_def)
  note final = conjI [OF c0 conjI [OF chunk_ne conjI [OF g1 conjI [OF g2 conjI [OF g3
    conjI [OF image conjI [OF we conjI [OF se conjI [OF prog conjI [OF erases rest4]]]]]]]]]]
  show ?thesis
    by (rule exI [of _ chunk], rule exI [of _ image], rule exI [of _ s1], rule exI [of _ s2],
        rule exI [of _ s3], rule exI [of _ s4])
      (rule final [unfolded base_def off_def])
qed

theorem C3_erase_program_chunk_witness:
  "(4::int) = 2 ^ 2 \<and> [1, 2] \<noteq> ([] :: byte list) \<and>
   (\<exists>s'. erase_program_loop idle_flash observer 5 [1, 2] 4 2 0 2 \<lparr>dev = (), trace = []\<rparr> =
       Some (Inr (), s') \<and>
     sector_erases (trace s') = [4] \<and>
     page_programs (trace s') = [(4, [0, 1]), (6, [2, 0])] \<and>
     (\<exists>existing s1 s2 s3 s4.
        read idle_flash 4 4 None no_callback \<lparr>dev = (), trace = []\<rparr> =
          Some (Inr existing, s1) \<and>
        sector_erase idle_flash 4 s2 = Some (Inr (), s3) \<and>
        program idle_flash (\<lambda>page_done page_total status. observer (0 + page_done) 2 status)
          4 [0, 1, 2, 0] 2 s3 = Some (Inr (), s4) \<and>
        sector_erases (trace s4) = [4] \<and>
        erase_program_loop idle_flash observer 7 [] 4 2 2 2 s4 = Some (Inr (), s'))) \<and>
   (\<exists>s'. erase_program_loop idle_flash observer 0 [0xff, 0xff, 0xff, 0xff] 4 2 0 4
       \<lparr>dev = (), trace = []\<rparr> = Some (Inr (), s') \<and>
     sector_erases (trace s') = [0] \<and>
     page_programs (trace s') = [] \<and>
     (\<exists>s2 s3.
        write_enable idle_flash
          (notify observer 0 4 (Some (Erasing_sector 0)) \<lparr>dev = (), trace = []\<rparr>) =
          (Inr (), s2) \<and>
        sector_erase idle_flash 0 s2 = Some (Inr (), s3) \<and>
        sector_erases (trace s3) = [0] \<and>
        erase_program_loop idle_flash observer 4 [] 4 2 4 4 s3 = Some (Inr (), s')))"
proof -
  let ?s = "\<lparr>dev = (), trace = []\<rparr> :: unit st"
  have h1: "(4::int) = 2 ^ 2" by simp
  have nil: "sector_erases (trace ?s) = []" by (simp add: sector_erases_def)
  have first: "\<exists>s'. erase_program_loop idle_flash observer 5 [1, 2] 4 2 0 2 ?s =
       Some (Inr (), s') \<and>
     sector_erases (trace s') = [4] \<and>
     page_programs (trace s') = [(4, [0, 1]), (6, [2, 0])] \<and>
     (\<exists>existing s1 s2 s3 s4.
        read idle_flash 4 4 None no_callback ?s = Some (Inr existing, s1) \<and>
        sector_erase idle_flash 4 s2 = Some (Inr (), s3) \<and>
        program idle_flash (\<lambda>page_done page_total status. observer (0 + page_done) 2 status)
          4 [0, 1, 2, 0] 2 s3 = Some (Inr (), s4) \<and>
        sector_erases (trace s4) = [4] \<and>
        erase_program_loop idle_flash observer 7 [] 4 2 2 2 s4 = Some (Inr (), s'))"
  proof -
    let ?run = "erase_program_loop idle_flash observer 5 [1, 2] 4 2 0 2 ?s"
    have "?run \<noteq> None" by code_simp
    then obtain r s' where run0: "?run = Some (r, s')" by auto
    have "fst (the ?run) = Inr ()" by code_simp
    with run0 have run: "?run = Some (Inr (), s')" by simp
    have "sector_erases (trace (snd (the ?run))) = [4]" by code_simp
    with run have se: "sector_erases (trace s') = [4]" by simp
    have "page_programs (trace (snd (the ?run))) = [(4, [0, 1]), (6, [2, 0])]" by code_simp
    with run have pp: "page_programs (trace s') = [(4, [0, 1]), (6, [2, 0])]" by simp
    have h2: "[1, 2] \<noteq> ([] :: byte list)" by simp
    have rd: "fst (the (read idle_flash 4 4 None no_callback ?s)) = Inr [0, 0, 0, 0]"
      by code_simp
    from C3_erase_program_chunk [OF h1 h2 run]
    obtain chunk image s1 s2 s3 s4 where
      c: "chunk = take (nat (4 - 5 mod 4)) [1, 2 :: byte]"
      and im: "if (5::int) mod 4 = 0 \<and> int (length chunk) = 4
        then image = chunk \<and> s1 = ?s
        else \<exists>existing.
          read idle_flash (5 - 5 mod 4) 4 None no_callback ?s = Some (Inr existing, s1) \<and>
          image = take (nat (5 mod 4)) existing @ chunk @
            drop (nat (5 mod 4) + length chunk) existing \<and>
          (full_duplex idle_flash \<longrightarrow> int (length existing) = 4 \<and> int (length image) = 4)"
      and er: "sector_erase idle_flash (5 - 5 mod 4) s2 = Some (Inr (), s3)"
      and sk: "if match_ff image then s4 = s3
        else program idle_flash
          (\<lambda>page_done page_total status. observer (0 + page_done) 2 status)
          (5 - 5 mod 4) image 2 s3 = Some (Inr (), s4)"
      and es: "sector_erases (trace s4) = sector_erases (trace ?s) @ [5 - 5 mod 4]"
      and rest: "erase_program_loop idle_flash observer (5 + int (length chunk))
          (drop (length chunk) [1, 2]) 4 2 (0 + length chunk) 2 s4 = Some (Inr (), s')"
      by blast
    from c have chunk: "chunk = [1, 2]" by simp
    from im obtain existing where
      rd1: "read idle_flash 4 4 None no_callback ?s = Some (Inr existing, s1)"
      and i: "image = take 1 existing @ chunk @ drop (1 + length chunk) existing"
      by (auto simp: chunk)
    from rd rd1 have "existing = [0, 0, 0, 0]" by simp
    with i chunk have image: "image = [0, 1, 2, 0]" by simp
    have "\<not> match_ff [0, 1, 2, 0]" by (simp add: match_ff_def)
    with sk image have pr: "program idle_flash
          (\<lambda>page_done page_total status. observer (0 + page_done) 2 status)
          4 [0, 1, 2, 0] 2 s3 = Some (Inr (), s4)" by simp
    from er have er': "sector_erase idle_flash 4 s2 = Some (Inr (), s3)" by simp
    from es nil have es': "sector_erases (trace s4) = [4]" by simp
    from rest chunk have rest': "erase_program_loop idle_flash observer 7 [] 4 2 2 2 s4 =
        Some (Inr (), s')" by (simp add: numeral_2_eq_2)
    from run se pp rd1 er' pr es' rest' show ?thesis by blast
  qed
  have second: "\<exists>s'. erase_program_loop idle_flash observer 0 [0xff, 0xff, 0xff, 0xff] 4 2 0 4
       ?s = Some (Inr (), s') \<and>
     sector_erases (trace s') = [0] \<and>
     page_programs (trace s') = [] \<and>
     (\<exists>s2 s3.
        write_enable idle_flash (notify observer 0 4 (Some (Erasing_sector 0)) ?s) =
          (Inr (), s2) \<and>
        sector_erase idle_flash 0 s2 = Some (Inr (), s3) \<and>
        sector_erases (trace s3) = [0] \<and>
        erase_program_loop idle_flash observer 4 [] 4 2 4 4 s3 = Some (Inr (), s'))"
  proof -
    let ?data = "[0xff, 0xff, 0xff, 0xff] :: byte list"
    let ?run = "erase_program_loop idle_flash observer 0 ?data 4 2 0 4 ?s"
    have "?run \<noteq> None" by code_simp
    then obtain r s' where run0: "?run = Some (r, s')" by auto
    have "fst (the ?run) = Inr ()" by code_simp
    with run0 have run: "?run = Some (Inr (), s')" by simp
    have "sector_erases (trace (snd (the ?run))) = [0]" by code_simp
    with run have se: "sector_erases (trace s') = [0]" by simp
    have "page_programs (trace (snd (the ?run))) = []" by code_simp
    with run have pp: "page_programs (trace s') = []" by simp
    have h2: "?data \<noteq> []" by simp
    from C3_erase_program_chunk [OF h1 h2 run]
    obtain chunk image s1 s2 s3 s4 where
      c: "chunk = take (nat (4 - 0 mod 4)) ?data"
      and im: "if (0::int) mod 4 = 0 \<and> int (length chunk) = 4
        then image = chunk \<and> s1 = ?s
        else \<exists>existing.
          read idle_flash (0 - 0 mod 4) 4 None no_callback ?s = Some (Inr existing, s1) \<and>
          image = take (nat (0 mod 4)) existing @ chunk @
            drop (nat (0 mod 4) + length chunk) existing \<and>
          (full_duplex idle_flash \<longrightarrow> int (length existing) = 4 \<and> int (length image) = 4)"
      and we: "write_enable idle_flash
          (notify observer 0 4 (Some (Erasing_sector (0 - 0 mod 4))) s1) = (Inr (), s2)"
      and er: "sector_erase idle_flash (0 - 0 mod 4) s2 = Some (Inr (), s3)"
      and sk: "if match_ff image then s4 = s3
        else program idle_flash
          (\<lambda>page_done page_total status. observer (0 + page_done) 4 status)
          (0 - 0 mod 4) image 2 s3 = Some (Inr (), s4)"
      and es: "sector_erases (trace s4) = sector_erases (trace ?s) @ [0 - 0 mod 4]"
      and rest: "erase_program_loop idle_flash observer (0 + int (length chunk))
          (drop (length chunk) ?data) 4 2 (0 + length chunk) 4 s4 = Some (Inr (), s')"
      by blast
    from c have chunk: "chunk = ?data" by simp
    from im chunk have image: "image = ?data" and s1: "s1 = ?s" by simp_all
    have "match_ff ?data" by (simp add: match_ff_def)
    with sk image have s4: "s4 = s3" by simp
    from we s1 have we': "write_enable idle_flash
        (notify observer 0 4 (Some (Erasing_sector 0)) ?s) = (Inr (), s2)" by simp
    from er have er': "sector_erase idle_flash 0 s2 = Some (Inr (), s3)" by simp
    from es nil s4 have es': "sector_erases (trace s3) = [0]" by simp
    have "length [0xff, 0xff, 0xff, 0xff :: byte] = 4" by simp
    with rest chunk s4 have rest': "erase_program_loop idle_flash observer 4 [] 4 2 4 4 s3 =
        Some (Inr (), s')" by (simp del: list.size)
    from run se pp we' er' es' rest' show ?thesis by blast
  qed
  from h1 first second show ?thesis by simp
qed

lemma erase_program_loop_sector_erases:
  assumes "erase_program_loop lower callback address data sector_size page_size n_done n_total s =
      Some y"
  shows "1 \<le> sector_size \<longrightarrow> fst y = Inr () \<longrightarrow>
     sector_erases (trace (snd y)) = sector_erases (trace s) @
       map (\<lambda>c. fst (snd c) AND NOT (sector_size - 1))
         (page_chunks address data sector_size n_done)"
proof (rule erase_program_loop.raw_induct
    [where P = "\<lambda>lower callback address data sector_size page_size n_done n_total s y.
      1 \<le> sector_size \<longrightarrow> fst y = Inr () \<longrightarrow>
     sector_erases (trace (snd y)) = sector_erases (trace s) @
       map (\<lambda>c. fst (snd c) AND NOT (sector_size - 1))
         (page_chunks address data sector_size n_done)", OF _ assms], goal_cases)
  case (1 loop lower callback address data sector_size page_size n_done n_total s y)
  show ?case
  proof (intro impI)
    assume ss: "1 \<le> sector_size" and ok: "fst y = Inr ()"
    obtain s' where y: "y = (Inr (), s')" using ok by (cases y) auto
    show "sector_erases (trace (snd y)) = sector_erases (trace s) @
       map (\<lambda>c. fst (snd c) AND NOT (sector_size - 1))
         (page_chunks address data sector_size n_done)"
    proof (cases "data = []")
      case True
      with 1(2) show ?thesis
        by (auto simp: page_chunks_Nil notify_sector_erases)
    next
      case False
      define off where "off = address mod sector_size"
      define base where "base = address AND NOT (sector_size - 1)"
      define chunk where "chunk = take (nat (sector_size - off)) data"
      from ss have pos: "0 < sector_size" by simp
      then have off_lt: "off < sector_size" by (simp add: off_def)
      then have sl: "slice_to data (sector_size - off) = chunk"
        by (simp add: slice_to_pos chunk_def)
      let ?image = "if off = 0 \<and> int (length chunk) = sector_size then Some (Inr chunk, s)
        else bind_res (read lower base sector_size None no_callback s)
          (\<lambda>sector_data s. Some (Inr (set_slice sector_data off (off + int (length chunk)) chunk), s))"
      let ?cb = "\<lambda>page_done page_total status. callback (n_done + page_done) n_total status"
      from 1(2) False pos have body: "bind_res ?image (\<lambda>sector_data s.
          bind_res (Some (write_enable lower
              (notify callback n_done n_total (Some (Erasing_sector base)) s))) (\<lambda>u s.
          bind_res (sector_erase lower base s) (\<lambda>u s.
          bind_res (if \<not> match_ff sector_data
                    then program lower ?cb base sector_data page_size s
                    else Some (Inr (), s)) (\<lambda>u s.
          loop lower callback (address + int (length chunk)) (drop (length chunk) data)
            sector_size page_size (n_done + length chunk) n_total s)))) = Some (Inr (), s')"
        by (simp add: y sl base_def [symmetric] Let_def off_def [symmetric] cong: if_cong)
      then obtain image s1 where im: "?image = Some (Inr image, s1)"
        and rest1: "bind_res (Some (write_enable lower
              (notify callback n_done n_total (Some (Erasing_sector base)) s1))) (\<lambda>u s.
          bind_res (sector_erase lower base s) (\<lambda>u s.
          bind_res (if \<not> match_ff image
                    then program lower ?cb base image page_size s
                    else Some (Inr (), s)) (\<lambda>u s.
          loop lower callback (address + int (length chunk)) (drop (length chunk) data)
            sector_size page_size (n_done + length chunk) n_total s))) = Some (Inr (), s')"
        unfolding bind_res_Inr_iff by blast
      from rest1 obtain s2 where we: "write_enable lower
              (notify callback n_done n_total (Some (Erasing_sector base)) s1) = (Inr (), s2)"
        and rest2: "bind_res (sector_erase lower base s2) (\<lambda>u s.
          bind_res (if \<not> match_ff image
                    then program lower ?cb base image page_size s
                    else Some (Inr (), s)) (\<lambda>u s.
          loop lower callback (address + int (length chunk)) (drop (length chunk) data)
            sector_size page_size (n_done + length chunk) n_total s)) = Some (Inr (), s')"
        unfolding bind_res_Inr_iff by auto
      from rest2 obtain s3 where se: "sector_erase lower base s2 = Some (Inr (), s3)"
        and rest3: "bind_res (if \<not> match_ff image
                    then program lower ?cb base image page_size s3
                    else Some (Inr (), s3)) (\<lambda>u s.
          loop lower callback (address + int (length chunk)) (drop (length chunk) data)
            sector_size page_size (n_done + length chunk) n_total s) = Some (Inr (), s')"
        unfolding bind_res_Inr_iff by auto
      from rest3 obtain s4 where pr: "(if \<not> match_ff image
                    then program lower ?cb base image page_size s3
                    else Some (Inr (), s3)) = Some (Inr (), s4)"
        and rest4: "loop lower callback (address + int (length chunk))
            (drop (length chunk) data) sector_size page_size (n_done + length chunk) n_total s4 =
            Some (Inr (), s')"
        unfolding bind_res_Inr_iff by auto
      have e1: "sector_erases (trace s1) = sector_erases (trace s)"
      proof (cases "off = 0 \<and> int (length chunk) = sector_size")
        case True
        with im show ?thesis by simp
      next
        case False
        with im have "bind_res (read lower base sector_size None no_callback s)
          (\<lambda>sector_data s. Some (Inr (set_slice sector_data off (off + int (length chunk)) chunk), s)) =
          Some (Inr image, s1)" by simp
        then obtain existing where
          "read lower base sector_size None no_callback s = Some (Inr existing, s1)"
          unfolding bind_res_Inr_iff by auto
        from read_sector_erases [OF this] show ?thesis .
      qed
      have e2: "sector_erases (trace s2) = sector_erases (trace s1)"
        using write_enable_sector_erases [OF we] by (simp add: notify_sector_erases)
      have e3: "sector_erases (trace s3) = sector_erases (trace s2) @ [base]"
        by (rule sector_erase_sector_erases [OF se])
      have e4: "sector_erases (trace s4) = sector_erases (trace s3)"
      proof (cases "match_ff image")
        case True
        with pr show ?thesis by simp
      next
        case False
        with pr have "program lower ?cb base image page_size s3 = Some (Inr (), s4)" by simp
        from program_sector_erases [OF this] show ?thesis .
      qed
      from 1(1) [OF rest4] ss
      have IH: "sector_erases (trace s') = sector_erases (trace s4) @
         map (\<lambda>c. fst (snd c) AND NOT (sector_size - 1))
           (page_chunks (address + int (length chunk)) (drop (length chunk) data) sector_size
              (n_done + length chunk))" by simp
      have pc: "page_chunks address data sector_size n_done =
          (n_done, address, chunk) #
          page_chunks (address + int (length chunk)) (drop (length chunk) data) sector_size
            (n_done + length chunk)"
        using page_chunks_Cons [OF False ss] by (simp add: chunk_def off_def)
      show ?thesis
        by (simp add: y IH e4 e3 e2 e1 pc base_def)
    qed
  qed
qed

lemma page_chunks_address_ge:
  "c \<in> set (page_chunks address data page_size n_done) \<Longrightarrow> address \<le> fst (snd c)"
proof (induction address data page_size n_done rule: page_chunks.induct)
  case (1 address data page_size n_done)
  show ?case
  proof (cases "data = [] \<or> page_size < 1")
    case True
    with "1.prems" show ?thesis by (auto simp: page_chunks.simps)
  next
    case False
    then have ne: "data \<noteq> []" and ps: "1 \<le> page_size" by auto
    let ?chunk = "take (nat (page_size - address mod page_size)) data"
    from "1.prems" page_chunks_Cons [OF ne ps, of address n_done]
    consider "c = (n_done, address, ?chunk)"
      | "c \<in> set (page_chunks (address + int (length ?chunk))
            (drop (length ?chunk) data) page_size (n_done + length ?chunk))"
      by auto
    then show ?thesis
    proof cases
      case 1
      then show ?thesis by simp
    next
      case 2
      from "1.IH" [OF False 2] show ?thesis by simp
    qed
  qed
qed

lemma page_chunks_sectors_increasing:
  "sorted_wrt (<) (map (\<lambda>c. fst (snd c) div page_size)
     (page_chunks address data page_size n_done))"
proof (induction address data page_size n_done rule: page_chunks.induct)
  case (1 address data page_size n_done)
  show ?case
  proof (cases "data = [] \<or> page_size < 1")
    case True
    then show ?thesis by (auto simp: page_chunks.simps)
  next
    case False
    then have ne: "data \<noteq> []" and ps: "1 \<le> page_size" by auto
    let ?k = "nat (page_size - address mod page_size)"
    let ?chunk = "take ?k data"
    let ?rest = "page_chunks (address + int (length ?chunk)) (drop (length ?chunk) data)
       page_size (n_done + length ?chunk)"
    have pc: "page_chunks address data page_size n_done = (n_done, address, ?chunk) # ?rest"
      by (rule page_chunks_Cons [OF ne ps])
    from ps have pos: "0 < page_size" by simp
    then have bound: "address mod page_size < page_size" by (rule pos_mod_bound)
    have "address div page_size < fst (snd c) div page_size" if c: "c \<in> set ?rest" for c
    proof -
      from c have "?rest \<noteq> []" by auto
      then have "drop (length ?chunk) data \<noteq> []" using page_chunks_Nil by metis
      then have "int (length ?chunk) = page_size - address mod page_size"
        using bound by simp
      then have "address + int (length ?chunk) = (address div page_size + 1) * page_size"
        by (simp add: algebra_simps minus_mod_eq_mult_div [symmetric])
      with page_chunks_address_ge [OF c]
      have "(address div page_size + 1) * page_size \<le> fst (snd c)" by simp
      then have "((address div page_size + 1) * page_size) div page_size \<le>
          fst (snd c) div page_size" by (rule zdiv_mono1) (rule pos)
      with pos show ?thesis by simp
    qed
    with "1.IH" [OF False] show ?thesis by (simp only: pc) auto
  qed
qed

text \<open>
  For a sector size that is a power of two, a run of \<^verbatim>\<open>erase_program\<close> that returns
  normally issues one sector erase for each chunk of the data, at the start of the sector
  of the chunk. The chunks are the parts of the data in the sectors the written range
  touches, one chunk for each sector: they make up the data, each lies inside one sector,
  and their sectors increase.
\<close>

lemma erase_program_one_erase_per_sector:
  assumes "sector_size = 2 ^ k"
    and "erase_program lower callback address data sector_size page_size s = Some (Inr (), s')"
  shows "\<exists>chunks.
     sector_erases (trace s') = sector_erases (trace s) @
       map (\<lambda>(n, a, d). a - a mod sector_size) chunks \<and>
     concat (map (\<lambda>(n, a, d). d) chunks) = data \<and>
     (\<forall>(n, a, d) \<in> set chunks. d \<noteq> [] \<and> a = address + int n \<and>
        a mod sector_size + int (length d) \<le> sector_size) \<and>
     sorted_wrt (<) (map (\<lambda>(n, a, d). a div sector_size) chunks)"
proof -
  let ?chunks = "page_chunks address data sector_size 0"
  from assms(1) have ss: "1 \<le> sector_size" by simp
  from erase_program_loop_sector_erases [OF assms(2) [unfolded erase_program_def]] ss
  have "sector_erases (trace s') = sector_erases (trace s) @
       map (\<lambda>c. fst (snd c) AND NOT (sector_size - 1)) ?chunks" by simp
  then have c1: "sector_erases (trace s') = sector_erases (trace s) @
       map (\<lambda>(n, a, d). a - a mod sector_size) ?chunks"
    by (simp add: assms(1) sector_start_pow2 case_prod_unfold)
  have c2: "concat (map (\<lambda>(n, a, d). d) ?chunks) = data"
    using concat_page_chunks [OF ss, of address data 0] by (simp add: case_prod_unfold)
  have addr: "fst (snd c) = address + int (fst c)" if "c \<in> set ?chunks" for c
  proof -
    from that obtain i where i: "i < length ?chunks" "c = ?chunks ! i"
      by (auto simp: in_set_conv_nth)
    have "fst (snd (?chunks ! j)) = address + int (fst (?chunks ! j))" if "j < length ?chunks" for j
      using that
    proof (induction j)
      case 0
      then have "data \<noteq> []" by (auto simp: page_chunks_Nil)
      from page_chunks_Cons [OF this ss, of address 0] show ?case by simp
    next
      case (Suc j)
      then have "fst (snd (?chunks ! j)) = address + int (fst (?chunks ! j))" by simp
      with page_chunks_consecutive [OF Suc.prems] show ?case by simp
    qed
    with i show ?thesis by simp
  qed
  have c3: "\<forall>(n, a, d) \<in> set ?chunks. d \<noteq> [] \<and> a = address + int n \<and>
        a mod sector_size + int (length d) \<le> sector_size"
    using page_chunks_within_page [of _ _ _ address data sector_size 0] addr by fastforce
  have c4: "sorted_wrt (<) (map (\<lambda>(n, a, d). a div sector_size) ?chunks)"
    using page_chunks_sectors_increasing [of sector_size address data 0]
    by (simp add: case_prod_unfold)
  from c1 c2 c3 c4 show ?thesis by blast
qed

section \<open>Runs on an idle flash return\<close>

lemma answers_zero_idle_flash: "answers_zero idle_flash"
  by (simp add: answers_zero_def idle_flash_def)

lemma frombytes_zeros: "frombytes (replicate n 0) = replicate (8 * n) False"
proof (induction n)
  case 0
  show ?case by (simp add: frombytes_def)
next
  case (Suc n)
  have b0: "bits_of_byte 0 = replicate 8 False"
    by (simp add: bits_of_byte_def list_eq_iff_nth_eq)
  have "frombytes (replicate (Suc n) 0) = replicate 8 False @ frombytes (replicate n 0)"
    by (simp add: frombytes_def b0)
  also have "\<dots> = replicate 8 False @ replicate (8 * n) False"
    by (simp only: Suc)
  also have "\<dots> = replicate (8 + 8 * n) False"
    by (simp only: replicate_add)
  finally show ?case by simp
qed

lemma decode_value_zeros: "decode_value (replicate (8 * n) False) = replicate n 0"
  using decode_value_frombytes [of "replicate n 0"] by (simp add: frombytes_zeros)

lemma command_answers_zero:
  assumes "answers_zero lower"
  shows "\<exists>s'. command lower cmd arg dummy ret s = (Inr (replicate ret 0), s')"
proof -
  have "map (\<lambda>b. False) (msb_first (replicate ret 0)) = replicate (8 * ret) False"
    by (simp add: map_replicate_const length_msb_first)
  with assms show ?thesis
    by (simp add: command_eq Let_def answers_zero_def decode_value_zeros)
qed

lemma answers_zero_has_hex: "answers_zero lower \<Longrightarrow> has_hex lower"
  by (simp add: answers_zero_def)

lemma read_status_answers_zero:
  assumes "answers_zero lower"
  shows "\<exists>s'. read_status lower s = (Inr 0, s')"
proof -
  from command_answers_zero [OF assms, of "0x05" "[]" 0 1 s]
  obtain s' where "command lower 0x05 [] 0 1 s = (Inr [0], s')" by auto
  then show ?thesis by (simp add: read_status_def)
qed

lemma write_in_progress_answers_zero:
  assumes "answers_zero lower"
  shows "\<exists>s'. write_in_progress lower command_name s = (Inr False, s')"
proof -
  from read_status_answers_zero [OF assms]
  obtain s' where "read_status lower s = (Inr 0, s')" by blast
  then show ?thesis by (simp add: write_in_progress_def)
qed

lemma wait_write_in_progress_answers_zero:
  assumes "answers_zero lower"
  shows "\<exists>s'. wait_write_in_progress lower command_name s = Some (Inr (), s')"
proof -
  from write_in_progress_answers_zero [OF assms]
  obtain s' where "write_in_progress lower command_name s = (Inr False, s')" by blast
  then show ?thesis by (subst wait_write_in_progress.simps) simp
qed

lemma page_program_answers_zero:
  assumes "answers_zero lower"
  shows "\<exists>s'. page_program lower address data s = Some (Inr (), s')"
proof -
  obtain bs s1 where "command lower 0x02 (format_addr address @ data) 0 0
      (emit [Log_page_program address data] s) = (Inr bs, s1)"
    using command_Inr [OF answers_zero_has_hex [OF assms]] by blast
  with wait_write_in_progress_answers_zero [OF assms, of "''PAGE PROGRAM''" s1]
  show ?thesis by (auto simp: page_program_def bind_res_simps)
qed

lemma sector_erase_answers_zero:
  assumes "answers_zero lower"
  shows "\<exists>s'. sector_erase lower address s = Some (Inr (), s')"
proof -
  obtain bs s1 where "command lower 0x20 (format_addr address) 0 0
      (emit [Log_sector_erase address] s) = (Inr bs, s1)"
    using command_Inr [OF answers_zero_has_hex [OF assms]] by blast
  with wait_write_in_progress_answers_zero [OF assms, of "''SECTOR ERASE''" s1]
  show ?thesis by (auto simp: sector_erase_def bind_res_simps)
qed

lemma program_loop_answers_zero:
  assumes "answers_zero lower" "1 \<le> page_size"
  shows "\<exists>s'. program_loop lower callback address data page_size n_done n_total s =
     Some (Inr (), s')"
proof (induction "length data" arbitrary: address data n_done s rule: less_induct)
  case less
  show ?case
  proof (cases "data = []")
    case True
    then show ?thesis by (subst program_loop.simps) simp
  next
    case False
    define chunk where "chunk = take (nat (page_size - address mod page_size)) data"
    define s0 where "s0 = notify callback n_done n_total (Some (Programming_page address)) s"
    from assms(2) have "0 < page_size" by simp
    then have bound: "address mod page_size < page_size" by (rule pos_mod_bound)
    then have sl: "slice_to data (page_size - address mod page_size) = chunk"
      by (simp add: slice_to_pos chunk_def)
    from bound False have "chunk \<noteq> []" by (cases data) (auto simp: chunk_def)
    with False have shorter: "length (drop (length chunk) data) < length data" by simp
    obtain s1 where we: "write_enable lower s0 = (Inr (), s1)"
      using write_enable_Inr [OF answers_zero_has_hex [OF assms(1)]] by blast
    obtain s2 where pp: "page_program lower address chunk s1 = Some (Inr (), s2)"
      using page_program_answers_zero [OF assms(1)] by blast
    from less [OF shorter]
    obtain s' where "program_loop lower callback (address + int (length chunk))
        (drop (length chunk) data) page_size (n_done + length chunk) n_total s2 =
        Some (Inr (), s')" by blast
    with False assms(2) we pp show ?thesis
      by (subst program_loop.simps)
        (simp add: sl Let_def s0_def [symmetric] bind_res_simps)
  qed
qed

text \<open>
  On a flash that reads idle \<^verbatim>\<open>program\<close> returns normally, for every address, data and
  page size of at least 1.
\<close>

lemma program_returns_on_idle_flash:
  assumes "answers_zero lower" "1 \<le> page_size"
  shows "\<exists>s'. program lower callback address data page_size s = Some (Inr (), s')"
  unfolding program_def by (rule program_loop_answers_zero [OF assms])

lemma read_command_loop_answers_zero:
  assumes "answers_zero lower" "1 \<le> chunk_size"
  shows "\<exists>d s'. read_command_loop lower address len chunk_size cmd dummy callback data s =
     Some (Inr d, s')"
proof (induction "nat (len - int (length data))" arbitrary: address data s rule: less_induct)
  case less
  show ?case
  proof (cases "len > int (length data)")
    case False
    then show ?thesis by (subst read_command_loop.simps) simp
  next
    case True
    define s0 where
      "s0 = notify callback (length data) (nat len) (Some (Reading_address address)) s"
    define ret where "ret = nat (min chunk_size (len - int (length data)))"
    from True assms(2) have ret: "0 < ret" by (simp add: ret_def)
    obtain s1 where c: "command lower cmd (format_addr address) dummy ret s0 =
        (Inr (replicate ret 0), s1)"
      using command_answers_zero [OF assms(1)] by blast
    from ret True have "nat (len - int (length (data @ replicate ret 0))) <
        nat (len - int (length data))" by simp
    from less [OF this]
    obtain d s' where "read_command_loop lower (address + int (length (replicate ret (0::byte))))
        len chunk_size cmd dummy callback (data @ replicate ret 0) s1 = Some (Inr d, s')"
      by blast
    with True c show ?thesis
      by (subst read_command_loop.simps)
        (simp add: Let_def s0_def [symmetric] ret_def [symmetric] bind_res_simps)
  qed
qed

lemma read_answers_zero:
  assumes "answers_zero lower"
  shows "\<exists>d s'. read lower address len None callback s = Some (Inr d, s')"
  unfolding read_def read_command_def Let_def
  using read_command_loop_answers_zero [OF assms, of 255] by simp

lemma erase_program_loop_answers_zero:
  assumes "answers_zero lower" "1 \<le> sector_size" "1 \<le> page_size"
  shows "\<exists>s'. erase_program_loop lower callback address data sector_size page_size
     n_done n_total s = Some (Inr (), s')"
proof (induction "length data" arbitrary: address data n_done s rule: less_induct)
  case less
  show ?case
  proof (cases "data = []")
    case True
    then show ?thesis by (subst erase_program_loop.simps) simp
  next
    case False
    define off where "off = address mod sector_size"
    define base where "base = address AND NOT (sector_size - 1)"
    define chunk where "chunk = take (nat (sector_size - off)) data"
    from assms(2) have pos: "0 < sector_size" by simp
    then have off_lt: "off < sector_size" by (simp add: off_def)
    then have sl: "slice_to data (sector_size - off) = chunk"
      by (simp add: slice_to_pos chunk_def)
    from off_lt False have "chunk \<noteq> []" by (cases data) (auto simp: chunk_def)
    with False have shorter: "length (drop (length chunk) data) < length data" by simp
    let ?image = "if off = 0 \<and> int (length chunk) = sector_size then Some (Inr chunk, s)
        else bind_res (read lower base sector_size None no_callback s)
          (\<lambda>sector_data s. Some (Inr (set_slice sector_data off (off + int (length chunk)) chunk), s))"
    let ?cb = "\<lambda>page_done page_total status. callback (n_done + page_done) n_total status"
    obtain image s1 where im: "?image = Some (Inr image, s1)"
    proof (cases "off = 0 \<and> int (length chunk) = sector_size")
      case True
      then have "?image = Some (Inr chunk, s)" by simp
      then show ?thesis by (rule that)
    next
      case False
      from read_answers_zero [OF assms(1)]
      obtain d s1 where rd: "read lower base sector_size None no_callback s = Some (Inr d, s1)"
        by blast
      have "?image =
          Some (Inr (set_slice d off (off + int (length chunk)) chunk), s1)"
        by (simp only: if_not_P [OF False] rd bind_res_simps)
      then show ?thesis by (rule that)
    qed
    obtain s2 where we: "write_enable lower
        (notify callback n_done n_total (Some (Erasing_sector base)) s1) = (Inr (), s2)"
      using write_enable_Inr [OF answers_zero_has_hex [OF assms(1)]] by blast
    obtain s3 where se: "sector_erase lower base s2 = Some (Inr (), s3)"
      using sector_erase_answers_zero [OF assms(1)] by blast
    obtain s4 where pr: "(if \<not> match_ff image
        then program lower ?cb base image page_size s3 else Some (Inr (), s3)) =
        Some (Inr (), s4)"
      using program_returns_on_idle_flash [OF assms(1,3), of ?cb base image s3]
      by (cases "match_ff image") auto
    from less [OF shorter]
    obtain s' where rec: "erase_program_loop lower callback (address + int (length chunk))
        (drop (length chunk) data) sector_size page_size (n_done + length chunk) n_total s4 =
        Some (Inr (), s')" by blast
    have "erase_program_loop lower callback address data sector_size page_size
        n_done n_total s =
      bind_res ?image (\<lambda>sector_data s.
        bind_res (Some (write_enable lower
            (notify callback n_done n_total (Some (Erasing_sector base)) s))) (\<lambda>u s.
        bind_res (sector_erase lower base s) (\<lambda>u s.
        bind_res (if \<not> match_ff sector_data
                  then program lower ?cb base sector_data page_size s
                  else Some (Inr (), s)) (\<lambda>u s.
        erase_program_loop lower callback (address + int (length chunk))
          (drop (length chunk) data) sector_size page_size (n_done + length chunk) n_total s))))"
      using False pos
      by (subst erase_program_loop.simps)
        (simp add: sl base_def [symmetric] Let_def off_def [symmetric] cong: if_cong)
    also have "\<dots> = Some (Inr (), s')"
      by (simp only: im bind_res_simps we se pr rec)
    finally show ?thesis by blast
  qed
qed

text \<open>
  On a flash that reads idle \<^verbatim>\<open>erase_program\<close> returns normally, for every address and
  data and every sector size and page size of at least 1.
\<close>

lemma erase_program_returns_on_idle_flash:
  assumes "answers_zero lower" "1 \<le> sector_size" "1 \<le> page_size"
  shows "\<exists>s'. erase_program lower callback address data sector_size page_size s =
     Some (Inr (), s')"
  unfolding erase_program_def by (rule erase_program_loop_answers_zero [OF assms])

end
